theory Spec2Isabelle
  imports Main "HOL-Library.Multiset"
begin

section \<open>The intrusive doubly-linked list of \<open>linked_list.ts\<close>\<close>

subsection \<open>Nodes, the heap and the list object\<close>

text \<open>
  A node object is identified by its address (a natural number); a reference \<open>T|null\<close>
  is a \<open>nat option\<close>, \<open>None\<close> being \<open>null\<close>.  The interface \<open>LinkedListNode\<close>
  has the two link fields; a concrete node type \<open>T extends LinkedListNode\<close> is an extension of
  the record.  (\<open>next\<close> is a keyword of the proof language, so both link fields carry the
  suffix \<open>_ptr\<close>.)
\<close>

type_synonym ref = "nat option"

record LinkedListNode =
  prev_ptr :: ref
  next_ptr :: ref

text \<open>
  The class \<open>LinkedList\<close> holds \<open>head\<close> and \<open>tail\<close>.  Its methods mutate the list object
  and the node objects, so they run on a \<open>list_state\<close>: the fields of \<open>this\<close> together with
  the heap \<open>nodes\<close> that maps each address to the node object stored there.
\<close>

record LinkedList =
  head :: ref
  tail :: ref

record 'a list_state = LinkedList +
  nodes :: "nat \<Rightarrow> 'a LinkedListNode_scheme"

datatype error = Error string | TypeError

datatype 'a result = Ok 'a | Throw error

definition get_prev :: "'a list_state \<Rightarrow> nat \<Rightarrow> ref" where
  "get_prev s n = prev_ptr (nodes s n)"

definition get_next :: "'a list_state \<Rightarrow> nat \<Rightarrow> ref" where
  "get_next s n = next_ptr (nodes s n)"

definition set_prev :: "nat \<Rightarrow> ref \<Rightarrow> 'a list_state \<Rightarrow> 'a list_state" where
  "set_prev n v s = s\<lparr>nodes := (nodes s)(n := (nodes s n)\<lparr>prev_ptr := v\<rparr>)\<rparr>"

definition set_next :: "nat \<Rightarrow> ref \<Rightarrow> 'a list_state \<Rightarrow> 'a list_state" where
  "set_next n v s = s\<lparr>nodes := (nodes s)(n := (nodes s n)\<lparr>next_ptr := v\<rparr>)\<rparr>"

subsection \<open>\<open>prependList\<close>, \<open>insertBefore\<close>, \<open>insertAfter\<close>, \<open>append\<close>, \<open>remove\<close>\<close>

text \<open>
  \<open>prependList(list)\<close> only reads the fields of the argument list, and reads them before it
  writes a field of \<open>this\<close>; the argument is therefore passed by value.
\<close>

definition prependList :: "'b LinkedList_scheme \<Rightarrow> 'a list_state \<Rightarrow> 'a list_state" where
  "prependList other s =
    (case (tail other, head other) of
       (Some lt, Some lh) \<Rightarrow>
         (case head s of
            None \<Rightarrow> s\<lparr>head := Some lh, tail := Some lt\<rparr>
          | Some h \<Rightarrow>
              (let s1 = set_prev h (Some lt) s;
                   s2 = set_next lt (head s1) s1
               in s2\<lparr>head := Some lh\<rparr>))
     | _ \<Rightarrow> s)"

definition insertBefore :: "nat \<Rightarrow> nat \<Rightarrow> 'a list_state \<Rightarrow> 'a list_state" where
  "insertBefore before ins s =
    (let s1 = (if head s = Some before then s\<lparr>head := Some ins\<rparr> else s);
         s2 = set_prev ins (get_prev s1 before) s1;
         s3 = set_next ins (Some before) s2;
         s4 = (case get_prev s3 before of
                 Some p \<Rightarrow> set_next p (Some ins) s3
               | None \<Rightarrow> s3)
     in set_prev before (Some ins) s4)"

definition insertAfter :: "nat \<Rightarrow> nat \<Rightarrow> 'a list_state \<Rightarrow> 'a list_state" where
  "insertAfter after ins s =
    (let s1 = (if tail s = Some after then s\<lparr>tail := Some ins\<rparr> else s);
         s2 = set_prev ins (Some after) s1;
         s3 = set_next ins (get_next s2 after) s2;
         s4 = (case get_next s3 after of
                 Some n \<Rightarrow> set_prev n (Some ins) s3
               | None \<Rightarrow> s3)
     in set_next after (Some ins) s4)"

definition append_node :: "nat \<Rightarrow> 'a list_state \<Rightarrow> 'a list_state" where
  "append_node node s =
    (case tail s of
       Some t \<Rightarrow> (set_next t (Some node) (set_prev node (Some t) s))\<lparr>tail := Some node\<rparr>
     | None \<Rightarrow> s\<lparr>head := Some node, tail := Some node\<rparr>)"

text \<open>
  \<open>remove\<close> returns the old \<open>node.next\<close> or throws.  A thrown exception does not undo the
  writes made before it, so the state is returned on both paths.
\<close>

definition detach :: "nat \<Rightarrow> 'a list_state \<Rightarrow> 'a list_state" where
  "detach node s = set_next node None (set_prev node None s)"

definition remove_node :: "nat \<Rightarrow> 'a list_state \<Rightarrow> ref result \<times> 'a list_state" where
  "remove_node node s =
    (let nxt = get_next s node in
     if head s = Some node then
       (let s1 = s\<lparr>head := get_next s node\<rparr>;
            s2 = (if tail s1 = Some node then s1\<lparr>tail := get_next s1 node\<rparr> else s1)
        in (Ok nxt, detach node s2))
     else
       (case get_prev s node of
          Some p \<Rightarrow>
            (let s1 = set_next p (get_next s node) s in
             if tail s1 = Some node then (Ok nxt, detach node (s1\<lparr>tail := get_prev s1 node\<rparr>))
             else
               (case get_next s1 node of
                  Some n \<Rightarrow> (Ok nxt, detach node (set_prev n (get_prev s1 node) s1))
                | None \<Rightarrow> (Throw (Error ''AssertionError: non-tail node has null next pointer''), s1)))
        | None \<Rightarrow> (Throw (Error ''AssertionError: non-head node has null prev pointer''), s)))"

subsection \<open>\<open>sortSubset\<close>\<close>

text \<open>
  The comparator returns a number, of which only the sign is used.  Its first argument is
  always a node; its second argument is the \<open>pos\<close> of the inner loop, which on a malformed
  chain can be \<open>null\<close>, so it is a reference.  \<open>on_nodes\<close> is the comparator on two nodes.
  \<open>sort_scan\<close> is the inner \<open>for\<close> loop: it returns whether the node was inserted and the
  value of \<open>tmpStart\<close>.  When \<open>pos\<close> is \<open>null\<close> without being equal to \<open>next\<close>, the loop
  still calls \<open>cmp(node, null)\<close>; if the answer is negative, \<open>insertBefore(null, node)\<close>
  assigns \<open>head\<close> when \<open>head\<close> is \<open>null\<close> and then reads \<open>before.prev\<close>, and otherwise the
  loop reads \<open>pos.next\<close>: a \<open>TypeError\<close> in both cases.  \<open>sort_loop\<close> is the
  \<open>do ... while\<close> loop; its first statements \<open>node = next; next = node.next\<close> dereference
  \<open>next\<close>.  Both loops may fail to terminate on a malformed chain, which is the value
  \<open>None\<close>.
\<close>

abbreviation on_nodes :: "(nat \<Rightarrow> ref \<Rightarrow> int) \<Rightarrow> nat \<Rightarrow> nat \<Rightarrow> int" where
  "on_nodes cmp \<equiv> (\<lambda>a b. cmp a (Some b))"

partial_function (option) sort_scan ::
  "(nat \<Rightarrow> ref \<Rightarrow> int) \<Rightarrow> nat \<Rightarrow> ref \<Rightarrow> nat \<Rightarrow> ref \<Rightarrow> 'a list_state
     \<Rightarrow> ((bool \<times> nat) result \<times> 'a list_state) option" where
  "sort_scan cmp node nxt tmpStart pos s =
    (if pos = nxt then Some (Ok (False, tmpStart), s)
     else
       (case pos of
          None \<Rightarrow>
            if cmp node None < 0
            then Some (Throw TypeError, if head s = None then s\<lparr>head := Some node\<rparr> else s)
            else Some (Throw TypeError, s)
        | Some p \<Rightarrow>
            if cmp node (Some p) < 0
            then Some (Ok (True, if p = tmpStart then node else tmpStart), insertBefore p node s)
            else sort_scan cmp node nxt tmpStart (get_next s p) s))"

partial_function (option) sort_loop ::
  "(nat \<Rightarrow> ref \<Rightarrow> int) \<Rightarrow> nat \<Rightarrow> nat \<Rightarrow> nat \<Rightarrow> ref \<Rightarrow> 'a list_state
     \<Rightarrow> ((nat \<times> nat) result \<times> 'a list_state) option" where
  "sort_loop cmp end_node tmpStart tmpEnd nxt s =
    (case nxt of
       None \<Rightarrow> Some (Throw TypeError, s)
     | Some node \<Rightarrow>
         (let nxt' = get_next s node in
          case remove_node node s of
            (Throw e, s1) \<Rightarrow> Some (Throw e, s1)
          | (Ok _, s1) \<Rightarrow>
              (case sort_scan cmp node nxt' tmpStart (Some tmpStart) s1 of
                 None \<Rightarrow> None
               | Some (Throw e, s2) \<Rightarrow> Some (Throw e, s2)
               | Some (Ok (inserted, tmpStart'), s2) \<Rightarrow>
                   (let s3 = (if \<not> inserted
                              then (case nxt' of
                                      Some n \<Rightarrow> insertBefore n node s2
                                    | None \<Rightarrow> append_node node s2)
                              else s2);
                        tmpEnd' = (if \<not> inserted then node else tmpEnd)
                    in if node \<noteq> end_node
                       then sort_loop cmp end_node tmpStart' tmpEnd' nxt' s3
                       else Some (Ok (tmpStart', tmpEnd'), s3)))))"

definition sortSubset ::
  "nat \<Rightarrow> nat \<Rightarrow> (nat \<Rightarrow> ref \<Rightarrow> int) \<Rightarrow> 'a list_state
     \<Rightarrow> ((nat \<times> nat) result \<times> 'a list_state) option" where
  "sortSubset start end_node cmp s =
    (if start = end_node then Some (Ok (start, end_node), s)
     else sort_loop cmp end_node start start (get_next s start) s)"

subsection \<open>\<open>forEach\<close> and \<open>toArray\<close>\<close>

text \<open>
  The loop of \<open>forEach\<close> follows \<open>next\<close> until it reads \<open>null\<close>; on a cyclic chain it never
  returns, which is the value \<open>None\<close> here.  \<open>toArray\<close> is \<open>forEach\<close> with the callback that
  pushes the node.
\<close>

partial_function (option) forEach_loop ::
  "(nat \<Rightarrow> 'c \<Rightarrow> 'c) \<Rightarrow> 'a list_state \<Rightarrow> ref \<Rightarrow> 'c \<Rightarrow> 'c option" where
  "forEach_loop cb s node acc =
    (case node of
       None \<Rightarrow> Some acc
     | Some n \<Rightarrow> forEach_loop cb s (get_next s n) (cb n acc))"

definition forEach :: "(nat \<Rightarrow> 'c \<Rightarrow> 'c) \<Rightarrow> 'a list_state \<Rightarrow> 'c \<Rightarrow> 'c option" where
  "forEach cb s acc = forEach_loop cb s (head s) acc"

definition toArray :: "'a list_state \<Rightarrow> nat list option" where
  "toArray s = forEach (\<lambda>node arr. arr @ [node]) s []"

declare forEach_loop.simps [code] sort_loop.simps [code] sort_scan.simps [code]

subsection \<open>\<open>applyTransform\<close>\<close>

text \<open>
  The three hooks of a \<open>Transform\<close> are optional.  A hook may mutate the list and the nodes,
  so it is a function on the state; \<open>visit\<close> also returns the node that now occupies the
  position.
\<close>

record 'a Transform =
  visitList :: "('a list_state \<Rightarrow> 'a list_state) option"
  visit :: "(nat \<Rightarrow> 'a list_state \<Rightarrow> nat \<times> 'a list_state) option"
  finalize :: "('a list_state \<Rightarrow> 'a list_state) option"

text \<open>
  The part of the loop body after the call of \<open>visit\<close>: the neighbours of the returned node
  (or \<open>head\<close>, \<open>tail\<close>) are pointed at it.
\<close>

definition relink :: "nat \<Rightarrow> 'a list_state \<Rightarrow> 'a list_state" where
  "relink node s1 =
    (let s2 = (case get_prev s1 node of
                 Some p \<Rightarrow> set_next p (Some node) s1
               | None \<Rightarrow> s1\<lparr>head := Some node\<rparr>)
     in (case get_next s2 node of
           Some q \<Rightarrow> set_prev q (Some node) s2
         | None \<Rightarrow> s2\<lparr>tail := Some node\<rparr>))"

partial_function (option) visit_loop ::
  "(nat \<Rightarrow> 'a list_state \<Rightarrow> nat \<times> 'a list_state) \<Rightarrow> ref \<Rightarrow> 'a list_state \<Rightarrow> 'a list_state option"
  where
  "visit_loop v node s =
    (case node of
       None \<Rightarrow> Some s
     | Some n \<Rightarrow>
         (case v n s of
            (n', s1) \<Rightarrow> visit_loop v (get_next (relink n' s1) n') (relink n' s1)))"

declare visit_loop.simps [code]

definition applyTransform :: "'a Transform \<Rightarrow> 'a list_state \<Rightarrow> 'a list_state option" where
  "applyTransform transform s =
    (let s1 = (case visitList transform of Some f \<Rightarrow> f s | None \<Rightarrow> s) in
     case (case visit transform of
             Some v \<Rightarrow> visit_loop v (head s1) s1
           | None \<Rightarrow> Some s1) of
       None \<Rightarrow> None
     | Some s2 \<Rightarrow> Some (case finalize transform of Some f \<Rightarrow> f s2 | None \<Rightarrow> s2))"

subsection \<open>The abstract sequence of a chain\<close>

text \<open>
  \<open>seg h p xs q\<close>: in the heap \<open>h\<close> the nodes \<open>xs\<close> are doubly linked in this order, the
  first one having \<open>prev = p\<close> and the last one \<open>next = q\<close>.
\<close>

fun first :: "nat list \<Rightarrow> ref \<Rightarrow> ref" where
  "first [] q = q"
| "first (x # xs) q = Some x"

fun final :: "ref \<Rightarrow> nat list \<Rightarrow> ref" where
  "final p [] = p"
| "final p (x # xs) = final (Some x) xs"

fun seg :: "(nat \<Rightarrow> 'a LinkedListNode_scheme) \<Rightarrow> ref \<Rightarrow> nat list \<Rightarrow> ref \<Rightarrow> bool" where
  "seg h p [] q = True"
| "seg h p (x # xs) q =
    (prev_ptr (h x) = p \<and> next_ptr (h x) = first xs q \<and> seg h (Some x) xs q)"

text \<open>
  \<open>chain p s xs\<close>: the list object and the heap of \<open>s\<close> represent the sequence \<open>xs\<close>, the
  head's \<open>prev\<close> being \<open>p\<close>.  \<open>dll s xs\<close> is the invariant of the data model: the head's
  \<open>prev\<close> is \<open>null\<close> as well.
\<close>

definition chain :: "ref \<Rightarrow> 'a list_state \<Rightarrow> nat list \<Rightarrow> bool" where
  "chain p s xs \<longleftrightarrow>
     distinct xs \<and> head s = first xs None \<and> tail s = final None xs \<and> seg (nodes s) p xs None"

definition dll :: "'a list_state \<Rightarrow> nat list \<Rightarrow> bool" where
  "dll s xs \<longleftrightarrow> chain None s xs"

text \<open>A node that is in no list: both links are \<open>null\<close>.\<close>

definition fresh :: "'a list_state \<Rightarrow> nat \<Rightarrow> bool" where
  "fresh s n \<longleftrightarrow> get_prev s n = None \<and> get_next s n = None"

text \<open>
  The constant \<open>FRESH_NODE\<close> of the source, and a newly constructed \<open>LinkedList\<close> in a
  heap whose node objects are all fresh.
\<close>

definition FRESH_NODE :: LinkedListNode where
  "FRESH_NODE = \<lparr>prev_ptr = None, next_ptr = None\<rparr>"

definition new_LinkedList :: "unit list_state" where
  "new_LinkedList = \<lparr>head = None, tail = None, nodes = (\<lambda>_. FRESH_NODE)\<rparr>"

text \<open>Whether a call ended in a thrown exception.\<close>

fun raised :: "'r result \<times> 's \<Rightarrow> bool" where
  "raised (Throw e, s) = True"
| "raised (Ok v, s) = False"

section \<open>The lowering pass \<open>TemplateToIrConverter\<close>\<close>

subsection \<open>Source template, expressions and IR nodes\<close>

text \<open>
  Modelled from the spec: the expression AST (\<open>expression_parser/ast\<close> is outside the
  sources).  The lowering pass only tests a value for being an \<open>ASTWithSource\<close> envelope or
  an \<open>Interpolation\<close> (literal strings and sub-expressions); every other expression is
  \<open>OtherAST\<close>.
\<close>

datatype ast =
    ASTWithSource ast
  | Interpolation "string list" "ast list"
  | OtherAST string

text \<open>
  Modelled from the spec: the source template nodes (\<open>r3_ast\<close> is outside the sources), with
  the fields the lowering pass reads.  An element has a name, static attributes (name, value),
  bound inputs (name, expression), references (name, value) and children; a nested template has
  a tag name, variables (name, value), references and children.  \<open>node.visit(visitor)\<close>
  dispatches on the kind of the node.
\<close>

datatype tmpl_node =
    tmpl_Element string "(string \<times> string) list" "(string \<times> ast) list"
      "(string \<times> string) list" "tmpl_node list"
  | tmpl_Text string
  | tmpl_BoundText ast
  | tmpl_Template string "(string \<times> string) list" "(string \<times> string) list" "tmpl_node list"
  | tmpl_Content
  | tmpl_Variable
  | tmpl_Reference
  | tmpl_TextAttribute
  | tmpl_BoundAttribute
  | tmpl_BoundEvent
  | tmpl_Icu

text \<open>
  Modelled from the spec: the IR node classes with the fields the lowering pass touches, and the
  marker value \<open>AttributeMarker.Bindings\<close>.  A field that the constructor does not receive is
  \<open>None\<close> until it is assigned.  The interpolation expression of a \<open>TextInterpolate\<close> is
  given by its lowered expressions and its strings.  The nested lists of a \<open>Template\<close> node
  are references to list objects, whose nodes live in the same heap.
\<close>

datatype attr_entry = AttrString string | AttributeMarker_Bindings

datatype ('e, 'r) ir_op =
    ElementStart nat string "attr_entry list option" "'r list option"
  | ElementEnd nat
  | Text nat "string option"
  | TextInterpolate nat "'e list" "string list"
  | Template nat string "LinkedList option" "LinkedList option" "'r list option"
  | Property nat string 'e

record ('e, 'r) IrNode = LinkedListNode +
  op :: "('e, 'r) ir_op"

text \<open>
  Modelled from the spec: the collaborators \<open>Scope\<close> and \<open>ValuePreprocessor\<close>, whose code is
  outside the sources, are parameters.  A scope object is a handle \<open>'h\<close> into the storage
  \<open>'w\<close> of the scope tree, which its methods may change; \<open>process\<close> is pure.
\<close>

record ('h, 'w, 'r, 'e) Collaborators =
  allocateId :: "'h \<Rightarrow> 'w \<Rightarrow> nat \<times> 'w"
  recordReference :: "'h \<Rightarrow> string \<Rightarrow> nat \<Rightarrow> string \<Rightarrow> 'w \<Rightarrow> 'r \<times> 'w"
  recordVariable :: "'h \<Rightarrow> string \<Rightarrow> nat \<Rightarrow> string \<Rightarrow> 'w \<Rightarrow> 'w"
  child :: "'h \<Rightarrow> nat \<Rightarrow> 'w \<Rightarrow> 'h \<times> 'w"
  root_scope :: "'w \<Rightarrow> 'h \<times> 'w"
  process :: "'h \<Rightarrow> 'w \<Rightarrow> ast \<Rightarrow> 'e"

text \<open>
  The state outside a converter object: the heap of IR nodes, the address of the next node to be
  constructed, and the storage of the scope tree.  A converter object has the fields \<open>create\<close>,
  \<open>update\<close> and \<open>scope\<close>; its \<open>preprocessor\<close> is determined by \<open>scope\<close>.
\<close>

record ('e, 'r, 'w) world =
  heap :: "nat \<Rightarrow> ('e, 'r) IrNode"
  next_addr :: nat
  scopes :: 'w

record 'h TemplateToIrConverter =
  create :: LinkedList
  update :: LinkedList
  scope :: 'h

text \<open>
  \<open>new X(...)\<close> for an IR node class: the node is constructed detached, at a new address.
  \<open>set_op\<close> assigns to payload fields of a node; \<open>list_append\<close> is \<open>append\<close> of the list
  object \<open>l\<close> in the heap of the world.
\<close>

definition new_node :: "('e, 'r) ir_op \<Rightarrow> ('e, 'r, 'w) world \<Rightarrow> nat \<times> ('e, 'r, 'w) world" where
  "new_node x w =
    (next_addr w,
     w\<lparr>heap := (heap w)(next_addr w := \<lparr>prev_ptr = None, next_ptr = None, op = x\<rparr>),
       next_addr := Suc (next_addr w)\<rparr>)"

definition set_op ::
  "nat \<Rightarrow> (('e, 'r) ir_op \<Rightarrow> ('e, 'r) ir_op) \<Rightarrow> ('e, 'r, 'w) world \<Rightarrow> ('e, 'r, 'w) world" where
  "set_op a f w = w\<lparr>heap := (heap w)(a := (heap w a)\<lparr>op := f (op (heap w a))\<rparr>)\<rparr>"

definition list_in :: "LinkedList \<Rightarrow> ('e, 'r, 'w) world \<Rightarrow> ('e, 'r, unit) IrNode_ext list_state" where
  "list_in l w = \<lparr>head = head l, tail = tail l, nodes = heap w\<rparr>"

definition list_append :: "nat \<Rightarrow> LinkedList \<Rightarrow> ('e, 'r, 'w) world \<Rightarrow> LinkedList \<times> ('e, 'r, 'w) world" where
  "list_append a l w =
    (let s = append_node a (list_in l w)
     in (\<lparr>head = head s, tail = tail s\<rparr>, w\<lparr>heap := nodes s\<rparr>))"


type_synonym ('h, 'w, 'r, 'e) conv = "'h TemplateToIrConverter \<times> ('e, 'r, 'w) world"

definition create_append :: "nat \<Rightarrow> ('h, 'w, 'r, 'e) conv \<Rightarrow> ('h, 'w, 'r, 'e) conv" where
  "create_append a cw =
    (case cw of (c, w) \<Rightarrow>
       (case list_append a (create c) w of (l, w') \<Rightarrow> (c\<lparr>create := l\<rparr>, w')))"

definition update_append :: "nat \<Rightarrow> ('h, 'w, 'r, 'e) conv \<Rightarrow> ('h, 'w, 'r, 'e) conv" where
  "update_append a cw =
    (case cw of (c, w) \<Rightarrow>
       (case list_append a (update c) w of (l, w') \<Rightarrow> (c\<lparr>update := l\<rparr>, w')))"

subsection \<open>The visitor methods\<close>

text \<open>
  The loop over the references of an element or a template, run when there is at least one.
\<close>

fun recordReferences ::
  "('h, 'w, 'r, 'e) Collaborators \<Rightarrow> 'h \<Rightarrow> nat \<Rightarrow> (string \<times> string) list \<Rightarrow> 'w \<Rightarrow> 'r list \<times> 'w" where
  "recordReferences svc h ident [] sw = ([], sw)"
| "recordReferences svc h ident ((name, val) # rest) sw =
    (case recordReference svc h name ident val sw of
       (r, sw1) \<Rightarrow> (case recordReferences svc h ident rest sw1 of (rs, sw2) \<Rightarrow> (r # rs, sw2)))"

definition collect_refs ::
  "('h, 'w, 'r, 'e) Collaborators \<Rightarrow> 'h \<Rightarrow> nat \<Rightarrow> (string \<times> string) list \<Rightarrow> 'w
     \<Rightarrow> 'r list option \<times> 'w" where
  "collect_refs svc h ident references sw =
    (if length references > 0
     then (case recordReferences svc h ident references sw of (rs, sw') \<Rightarrow> (Some rs, sw'))
     else (None, sw))"

text \<open>
  \<open>elementStart.attrs.push(x)\<close>, \<open>elementStart.attrs = []\<close>, and the three assignments to
  the fields of the \<open>Template\<close> node.
\<close>

fun push_attr :: "attr_entry \<Rightarrow> ('e, 'r) ir_op \<Rightarrow> ('e, 'r) ir_op" where
  "push_attr x (ElementStart ident name (Some attrs) refs) =
     ElementStart ident name (Some (attrs @ [x])) refs"
| "push_attr x other = other"

fun set_attrs :: "attr_entry list \<Rightarrow> ('e, 'r) ir_op \<Rightarrow> ('e, 'r) ir_op" where
  "set_attrs xs (ElementStart ident name attrs refs) = ElementStart ident name (Some xs) refs"
| "set_attrs xs other = other"

fun set_view :: "LinkedList \<Rightarrow> LinkedList \<Rightarrow> 'r list option \<Rightarrow> ('e, 'r) ir_op \<Rightarrow> ('e, 'r) ir_op" where
  "set_view cr up refs (Template ident tagName c u r) = Template ident tagName (Some cr) (Some up) refs"
| "set_view cr up refs other = other"

text \<open>The loop over the bound inputs of an element.\<close>

fun push_inputs ::
  "('h, 'w, 'r, 'e) Collaborators \<Rightarrow> nat \<Rightarrow> nat \<Rightarrow> (string \<times> ast) list \<Rightarrow> ('h, 'w, 'r, 'e) conv
     \<Rightarrow> ('h, 'w, 'r, 'e) conv" where
  "push_inputs svc ident elementStart [] cw = cw"
| "push_inputs svc ident elementStart ((name, val) # rest) cw =
    (case cw of (c, w) \<Rightarrow>
       (let w1 = set_op elementStart (push_attr (AttrString name)) w in
        case new_node (Property ident name (process svc (scope c) (scopes w1) val)) w1 of
          (property, w2) \<Rightarrow>
            push_inputs svc ident elementStart rest (update_append property (c, w2))))"

text \<open>
  \<open>visitElement\<close> up to the visit of the children; it returns the id for the closing
  \<open>ElementEnd\<close>.  The constructor call and the assignment of \<open>refs\<close> are one step.
\<close>

definition visitElement_open ::
  "('h, 'w, 'r, 'e) Collaborators \<Rightarrow> string \<Rightarrow> (string \<times> string) list \<Rightarrow> (string \<times> ast) list
     \<Rightarrow> (string \<times> string) list \<Rightarrow> ('h, 'w, 'r, 'e) conv \<Rightarrow> nat \<times> ('h, 'w, 'r, 'e) conv" where
  "visitElement_open svc name attributes inputs references cw =
    (case cw of (c, w) \<Rightarrow>
      (case allocateId svc (scope c) (scopes w) of (ident, sw1) \<Rightarrow>
        (case collect_refs svc (scope c) ident references sw1 of (refs, sw2) \<Rightarrow>
          (case new_node (ElementStart ident name None refs) (w\<lparr>scopes := sw2\<rparr>) of
             (elementStart, w1) \<Rightarrow>
               (let cw1 = create_append elementStart (c, w1) in
                if length attributes > 0 \<or> length inputs > 0 then
                  (case cw1 of (c1, w2) \<Rightarrow>
                    (let w3 = set_op elementStart (set_attrs []) w2;
                         w4 = fold (\<lambda>(n, v) w.
                                  set_op elementStart (push_attr (AttrString v))
                                    (set_op elementStart (push_attr (AttrString n)) w))
                                attributes w3;
                         w5 = (if length inputs > 0
                               then set_op elementStart (push_attr AttributeMarker_Bindings) w4
                               else w4)
                     in (ident, push_inputs svc ident elementStart inputs (c1, w5))))
                else (ident, cw1))))))"

definition visitText :: "('h, 'w, 'r, 'e) Collaborators \<Rightarrow> string \<Rightarrow> ('h, 'w, 'r, 'e) conv
     \<Rightarrow> unit result \<times> ('h, 'w, 'r, 'e) conv" where
  "visitText svc val cw =
    (case cw of (c, w) \<Rightarrow>
      (case allocateId svc (scope c) (scopes w) of (ident, sw1) \<Rightarrow>
        (case new_node (Text ident (Some val)) (w\<lparr>scopes := sw1\<rparr>) of
           (text, w1) \<Rightarrow> (Ok (), create_append text (c, w1)))))"

text \<open>
  The unwrapping of an \<open>ASTWithSource\<close> envelope (one level, as the source does), and the test
  \<open>top instanceof ast.Interpolation\<close>.
\<close>

definition unwrap_source :: "ast \<Rightarrow> ast" where
  "unwrap_source val = (case val of ASTWithSource inner \<Rightarrow> inner | _ \<Rightarrow> val)"

fun is_interpolation :: "ast \<Rightarrow> bool" where
  "is_interpolation (Interpolation strings expressions) = True"
| "is_interpolation other = False"

definition visitBoundText :: "('h, 'w, 'r, 'e) Collaborators \<Rightarrow> ast \<Rightarrow> ('h, 'w, 'r, 'e) conv
     \<Rightarrow> unit result \<times> ('h, 'w, 'r, 'e) conv" where
  "visitBoundText svc val cw =
    (case cw of (c, w) \<Rightarrow>
      (case allocateId svc (scope c) (scopes w) of (ident, sw1) \<Rightarrow>
        (case new_node (Text ident None) (w\<lparr>scopes := sw1\<rparr>) of
           (text, w1) \<Rightarrow>
             (let cw1 = create_append text (c, w1);
                  top = unwrap_source val
              in case top of
                   Interpolation strings expressions \<Rightarrow>
                     (case cw1 of (c1, w2) \<Rightarrow>
                       (case new_node
                               (TextInterpolate ident
                                  (map (process svc (scope c1) (scopes w2)) expressions) strings) w2 of
                          (interp, w3) \<Rightarrow> (Ok (), update_append interp (c1, w3))))
                 | _ \<Rightarrow> (Throw (Error ''BoundText is not an interpolation expression?''), cw1)))))"

text \<open>\<open>visitTemplate\<close> after \<open>parseChild\<close> has returned \<open>parsed\<close>.\<close>

definition visitTemplate_close ::
  "('h, 'w, 'r, 'e) Collaborators \<Rightarrow> nat \<Rightarrow> string \<Rightarrow> (string \<times> string) list
     \<Rightarrow> 'h TemplateToIrConverter \<Rightarrow> ('h, 'w, 'r, 'e) conv \<Rightarrow> ('h, 'w, 'r, 'e) conv" where
  "visitTemplate_close svc ident tagName references parsed cw =
    (case cw of (c, w) \<Rightarrow>
      (case collect_refs svc (scope c) ident references (scopes w) of (refs, sw1) \<Rightarrow>
        (case new_node (Template ident (if tagName \<noteq> [] then tagName else ''ng-template'')
                          None None None) (w\<lparr>scopes := sw1\<rparr>) of
           (view, w1) \<Rightarrow>
             (case create_append view (c, w1) of (c1, w2) \<Rightarrow>
               (c1, set_op view (set_view (create parsed) (update parsed) refs) w2)))))"

text \<open>
  \<open>visit_node\<close> is \<open>node.visit(this)\<close>; \<open>visitAll\<close> is \<open>tmpl.visitAll(this, nodes)\<close> and the loops
  of \<open>parseRoot\<close> and \<open>parseChild\<close>, which visit the nodes in order.  The case of a nested
  template contains \<open>parseChild\<close>: a new converter on the child scope visits the children.
  An exception leaves through every caller; the writes made before it remain.
\<close>

fun visit_node ::
  "('h, 'w, 'r, 'e) Collaborators \<Rightarrow> tmpl_node \<Rightarrow> ('h, 'w, 'r, 'e) conv
     \<Rightarrow> unit result \<times> ('h, 'w, 'r, 'e) conv"
and visitAll ::
  "('h, 'w, 'r, 'e) Collaborators \<Rightarrow> tmpl_node list \<Rightarrow> ('h, 'w, 'r, 'e) conv
     \<Rightarrow> unit result \<times> ('h, 'w, 'r, 'e) conv" where
  "visit_node svc (tmpl_Element name attributes inputs references children) cw =
    (case visitElement_open svc name attributes inputs references cw of
       (ident, cw1) \<Rightarrow>
         (case visitAll svc children cw1 of
            (Throw e, cw2) \<Rightarrow> (Throw e, cw2)
          | (Ok u, (c2, w2)) \<Rightarrow>
              (case new_node (ElementEnd ident) w2 of
                 (elementEnd, w3) \<Rightarrow> (Ok (), create_append elementEnd (c2, w3)))))"
| "visit_node svc (tmpl_Text val) cw = visitText svc val cw"
| "visit_node svc (tmpl_BoundText val) cw = visitBoundText svc val cw"
| "visit_node svc (tmpl_Template tagName variables references children) cw =
    (case cw of (c, w) \<Rightarrow>
      (case allocateId svc (scope c) (scopes w) of (ident, sw1) \<Rightarrow>
        (case child svc (scope c) ident sw1 of (childScope, sw2) \<Rightarrow>
          (let parser = \<lparr>create = \<lparr>head = None, tail = None\<rparr>,
                         update = \<lparr>head = None, tail = None\<rparr>, scope = childScope\<rparr>;
               sw3 = fold (\<lambda>(n, v) sw. recordVariable svc childScope n ident v sw) variables sw2
           in case visitAll svc children (parser, w\<lparr>scopes := sw3\<rparr>) of
                (Throw e, (p, w1)) \<Rightarrow> (Throw e, (c, w1))
              | (Ok u, (parsed, w1)) \<Rightarrow>
                  (Ok (), visitTemplate_close svc ident tagName references parsed (c, w1))))))"
| "visit_node svc tmpl_Content cw = (Throw (Error ''Method not implemented.''), cw)"
| "visit_node svc tmpl_Variable cw = (Throw (Error ''Method not implemented.''), cw)"
| "visit_node svc tmpl_Reference cw = (Throw (Error ''Method not implemented.''), cw)"
| "visit_node svc tmpl_TextAttribute cw = (Throw (Error ''Method not implemented.''), cw)"
| "visit_node svc tmpl_BoundAttribute cw = (Throw (Error ''Method not implemented.''), cw)"
| "visit_node svc tmpl_BoundEvent cw = (Throw (Error ''Method not implemented.''), cw)"
| "visit_node svc tmpl_Icu cw = (Throw (Error ''Method not implemented.''), cw)"
| "visitAll svc [] cw = (Ok (), cw)"
| "visitAll svc (n # ns) cw =
    (case visit_node svc n cw of
       (Throw e, cw1) \<Rightarrow> (Throw e, cw1)
     | (Ok u, cw1) \<Rightarrow> visitAll svc ns cw1)"


subsection \<open>\<open>parseRoot\<close> and \<open>parse\<close>\<close>

record 'h RootTemplate =
  root_create :: LinkedList
  root_update :: LinkedList
  root_scope_of :: 'h
  root_name :: "string option"

definition finalize_converter :: "'h TemplateToIrConverter \<Rightarrow> 'h TemplateToIrConverter" where
  "finalize_converter c = \<lparr>create = create c, update = update c, scope = scope c\<rparr>"

definition parseRoot ::
  "('h, 'w, 'r, 'e) Collaborators \<Rightarrow> tmpl_node list \<Rightarrow> ('e, 'r, 'w) world
     \<Rightarrow> 'h RootTemplate result \<times> ('e, 'r, 'w) world" where
  "parseRoot svc input w =
    (case root_scope svc (scopes w) of (h, sw) \<Rightarrow>
      (let parser = \<lparr>create = \<lparr>head = None, tail = None\<rparr>,
                     update = \<lparr>head = None, tail = None\<rparr>, scope = h\<rparr>
       in case visitAll svc input (parser, w\<lparr>scopes := sw\<rparr>) of
            (Throw e, (p, w1)) \<Rightarrow> (Throw e, w1)
          | (Ok u, (p, w1)) \<Rightarrow>
              (case finalize_converter p of fin \<Rightarrow>
                (Ok \<lparr>root_create = create fin, root_update = update fin,
                     root_scope_of = scope fin, root_name = None\<rparr>, w1))))"

definition parse ::
  "('h, 'w, 'r, 'e) Collaborators \<Rightarrow> tmpl_node list \<Rightarrow> string \<Rightarrow> ('e, 'r, 'w) world
     \<Rightarrow> 'h RootTemplate result \<times> ('e, 'r, 'w) world" where
  "parse svc input nm w =
    (case parseRoot svc input w of
       (Throw e, w1) \<Rightarrow> (Throw e, w1)
     | (Ok rt, w1) \<Rightarrow> (Ok (rt\<lparr>root_name := Some nm\<rparr>), w1))"

subsection \<open>Reading a list of IR nodes\<close>

text \<open>
  The payloads of the nodes of a list in traversal order, and the two lists of a lowered root
  template.
\<close>

definition list_ops :: "LinkedList \<Rightarrow> ('e, 'r, 'w) world \<Rightarrow> ('e, 'r) ir_op list option" where
  "list_ops l w = map_option (map (\<lambda>a. op (heap w a))) (toArray (list_in l w))"

definition lowered_create ::
  "('h, 'w, 'r, 'e) Collaborators \<Rightarrow> tmpl_node list \<Rightarrow> ('e, 'r, 'w) world \<Rightarrow> ('e, 'r) ir_op list option" where
  "lowered_create svc input w =
    (case parseRoot svc input w of
       (Ok rt, w') \<Rightarrow> list_ops (root_create rt) w'
     | (Throw e, w') \<Rightarrow> None)"

definition lowered_update ::
  "('h, 'w, 'r, 'e) Collaborators \<Rightarrow> tmpl_node list \<Rightarrow> ('e, 'r, 'w) world \<Rightarrow> ('e, 'r) ir_op list option" where
  "lowered_update svc input w =
    (case parseRoot svc input w of
       (Ok rt, w') \<Rightarrow> list_ops (root_update rt) w'
     | (Throw e, w') \<Rightarrow> None)"

subsection \<open>A scope service and an initial world for the examples\<close>

text \<open>
  Modelled from the spec: a \<open>Scope\<close> whose \<open>allocateId\<close> is monotonic and unique within the
  scope tree, minting the ids 0, 1, 2, ... from one counter; a child scope takes its ids from
  the same counter, so that they are disjoint from its parent's.  A recorded reference is the
  triple it was recorded with.  The preprocessor is any function \<open>lower\<close> of the expression.
\<close>

definition counting_scope ::
  "(ast \<Rightarrow> 'e) \<Rightarrow> (unit, nat, string \<times> nat \<times> string, 'e) Collaborators" where
  "counting_scope lower =
    \<lparr>allocateId = (\<lambda>h n. (n, Suc n)),
     recordReference = (\<lambda>h nm ident v n. ((nm, ident, v), n)),
     recordVariable = (\<lambda>h nm ident v n. n),
     child = (\<lambda>h ident n. ((), n)),
     root_scope = (\<lambda>n. ((), 0)),
     process = (\<lambda>h n e. lower e)\<rparr>"

text \<open>A world in which no IR node has been constructed yet.\<close>

definition blank_world :: "'w \<Rightarrow> ('e, 'r, 'w) world" where
  "blank_world sw =
    \<lparr>heap = (\<lambda>_. \<lparr>prev_ptr = None, next_ptr = None, op = ElementEnd 0\<rparr>), next_addr = 0,
     scopes = sw\<rparr>"

section \<open>Predicates used to state the claims\<close>

text \<open>
  The well-formedness of a converter in a world: its two lists satisfy the list invariant with
  the sequences \<open>cs\<close> and \<open>us\<close>, share no node, and hold only nodes that have been
  constructed.  \<open>ops_of\<close> reads the payloads of a sequence of nodes.
\<close>

definition ir_list :: "('e, 'r, 'w) world \<Rightarrow> LinkedList \<Rightarrow> nat list \<Rightarrow> bool" where
  "ir_list w l xs \<longleftrightarrow> dll (list_in l w) xs"

definition conv_ok :: "('h, 'w, 'r, 'e) conv \<Rightarrow> nat list \<Rightarrow> nat list \<Rightarrow> bool" where
  "conv_ok cw cs us \<longleftrightarrow>
     ir_list (snd cw) (create (fst cw)) cs \<and> ir_list (snd cw) (update (fst cw)) us \<and>
     set cs \<inter> set us = {} \<and> (\<forall>a\<in>set cs \<union> set us. a < next_addr (snd cw))"

definition ops_of :: "('e, 'r, 'w) world \<Rightarrow> nat list \<Rightarrow> ('e, 'r) ir_op list" where
  "ops_of w xs = map (\<lambda>a. op (heap w a)) xs"

text \<open>
  \<open>grown cw cw' cs us cs' us'\<close>: from the converter state \<open>cw\<close> with sequences \<open>cs\<close> and
  \<open>us\<close>, the state \<open>cw'\<close> has been reached by appending the nodes \<open>cs'\<close> and \<open>us'\<close>, all
  newly constructed; the payload of every older node is unchanged, and so is every older node
  outside the two lists.
\<close>

definition grown ::
  "('h, 'w, 'r, 'e) conv \<Rightarrow> ('h, 'w, 'r, 'e) conv \<Rightarrow> nat list \<Rightarrow> nat list \<Rightarrow> nat list \<Rightarrow> nat list \<Rightarrow> bool" where
  "grown cw cw' cs us cs' us' \<longleftrightarrow>
     conv_ok cw' (cs @ cs') (us @ us') \<and> scope (fst cw') = scope (fst cw) \<and>
     next_addr (snd cw) \<le> next_addr (snd cw') \<and>
     (\<forall>a\<in>set cs' \<union> set us'. next_addr (snd cw) \<le> a) \<and>
     (\<forall>b<next_addr (snd cw). op (heap (snd cw') b) = op (heap (snd cw) b)) \<and>
     (\<forall>b<next_addr (snd cw). b \<notin> set cs \<union> set us \<longrightarrow> heap (snd cw') b = heap (snd cw) b)"

text \<open>
  The flattened attribute sequence of an element: the static pairs, then the marker if there
  is a bound input, then the names of the bound inputs; absent when the element has neither.
\<close>

definition attr_pairs :: "(string \<times> string) list \<Rightarrow> attr_entry list" where
  "attr_pairs attributes = concat (map (\<lambda>(n, v). [AttrString n, AttrString v]) attributes)"

definition element_attrs :: "(string \<times> string) list \<Rightarrow> (string \<times> ast) list \<Rightarrow> attr_entry list option" where
  "element_attrs attributes inputs =
    (if length attributes > 0 \<or> length inputs > 0
     then Some (attr_pairs attributes @
                (if length inputs > 0 then [AttributeMarker_Bindings] else []) @
                map (\<lambda>(n, v). AttrString n) inputs)
     else None)"




text \<open>
  The condition under which, in the words of the specification, \<open>remove\<close> must fail: a
  non-head node with a null \<open>prev\<close>, or a non-tail node with a null \<open>next\<close>.
\<close>

definition violates_chain_invariant :: "'a list_state \<Rightarrow> nat \<Rightarrow> bool" where
  "violates_chain_invariant s node \<longleftrightarrow>
     (head s \<noteq> Some node \<and> get_prev s node = None) \<or>
     (tail s \<noteq> Some node \<and> get_next s node = None)"

text \<open>
  A \<open>visit\<close> hook that returns a newly constructed node \<open>f n\<close> in place of each visited node
  \<open>n\<close>: the new node's links are those of \<open>n\<close>, and nothing else is changed.
\<close>

definition replaces_with ::
  "(nat \<Rightarrow> nat) \<Rightarrow> (nat \<Rightarrow> 'a list_state \<Rightarrow> nat \<times> 'a list_state) \<Rightarrow> bool" where
  "replaces_with f v \<longleftrightarrow>
     (\<forall>n s. fst (v n s) = f n \<and>
        head (snd (v n s)) = head s \<and> tail (snd (v n s)) = tail s \<and>
        (\<forall>m. m \<noteq> f n \<longrightarrow> nodes (snd (v n s)) m = nodes s m) \<and>
        get_prev (snd (v n s)) (f n) = get_prev s n \<and>
        get_next (snd (v n s)) (f n) = get_next s n)"

text \<open>
  The insertion sort of the specification on sequences: \<open>place\<close> puts a node immediately
  before the first node of the sorted segment that it is strictly less than, or at the end of
  the segment when there is none.
\<close>

fun place :: "(nat \<Rightarrow> nat \<Rightarrow> int) \<Rightarrow> nat \<Rightarrow> nat list \<Rightarrow> nat list" where
  "place cmp n [] = [n]"
| "place cmp n (p # ps) = (if cmp n p < 0 then n # p # ps else p # place cmp n ps)"

definition insertion_sort :: "(nat \<Rightarrow> nat \<Rightarrow> int) \<Rightarrow> nat list \<Rightarrow> nat list" where
  "insertion_sort cmp xs = foldl (\<lambda>sorted n. place cmp n sorted) [] xs"

text \<open>
  Properties of a comparator on a set of nodes, for \<open>a\<close> less than \<open>b\<close> meaning
  \<open>cmp a b < 0\<close>; a sequence that is non-decreasing under \<open>cmp\<close>; two nodes that compare
  equal (neither is less than the other, in particular when \<open>cmp\<close> returns 0 both ways); and
  stability: for each node of the input, the nodes that compare equal to it are in the same
  order in the output as in the input.
\<close>

definition strict_partial_order :: "(nat \<Rightarrow> nat \<Rightarrow> int) \<Rightarrow> nat set \<Rightarrow> bool" where
  "strict_partial_order cmp A \<longleftrightarrow>
     (\<forall>a\<in>A. \<not> cmp a a < 0) \<and>
     (\<forall>a\<in>A. \<forall>b\<in>A. \<forall>c\<in>A. cmp a b < 0 \<and> cmp b c < 0 \<longrightarrow> cmp a c < 0)"

definition strict_weak_order :: "(nat \<Rightarrow> nat \<Rightarrow> int) \<Rightarrow> nat set \<Rightarrow> bool" where
  "strict_weak_order cmp A \<longleftrightarrow>
     strict_partial_order cmp A \<and>
     (\<forall>a\<in>A. \<forall>b\<in>A. \<forall>c\<in>A. cmp a b < 0 \<longrightarrow> cmp a c < 0 \<or> cmp c b < 0)"

definition non_decreasing :: "(nat \<Rightarrow> nat \<Rightarrow> int) \<Rightarrow> nat list \<Rightarrow> bool" where
  "non_decreasing cmp ys \<longleftrightarrow> sorted_wrt (\<lambda>a b. \<not> cmp b a < 0) ys"

definition equal_under :: "(nat \<Rightarrow> nat \<Rightarrow> int) \<Rightarrow> nat \<Rightarrow> nat \<Rightarrow> bool" where
  "equal_under cmp a b \<longleftrightarrow> \<not> cmp a b < 0 \<and> \<not> cmp b a < 0"

definition keeps_equal_order :: "(nat \<Rightarrow> nat \<Rightarrow> int) \<Rightarrow> nat list \<Rightarrow> nat list \<Rightarrow> bool" where
  "keeps_equal_order cmp xs ys \<longleftrightarrow>
     (\<forall>k\<in>set xs. filter (equal_under cmp k) ys = filter (equal_under cmp k) xs)"

text \<open>
  Two comparators for the examples: one that compares keys, and one for the partial order in
  which node 2 is less than node 0 and every other pair compares equal.  Both answer 0 for
  \<open>null\<close>.
\<close>

definition cmp_partial :: "nat \<Rightarrow> ref \<Rightarrow> int" where
  "cmp_partial a b =
    (if a = 2 \<and> b = Some 0 then - 1 else if a = 0 \<and> b = Some 2 then 1 else 0)"

definition cmp_key :: "(nat \<Rightarrow> int) \<Rightarrow> nat \<Rightarrow> ref \<Rightarrow> int" where
  "cmp_key key a b = (case b of Some n \<Rightarrow> key a - key n | None \<Rightarrow> 0)"

text \<open>
  A source node lowers when no visit method reached from it throws: a text node, a bound text
  whose value is an \<open>Interpolation\<close> after the unwrapping, and an element or a nested template
  all of whose children lower.
\<close>

fun lowers :: "tmpl_node \<Rightarrow> bool" where
  "lowers (tmpl_Element name attributes inputs references children) = list_all lowers children"
| "lowers (tmpl_Text val) = True"
| "lowers (tmpl_BoundText val) = is_interpolation (unwrap_source val)"
| "lowers (tmpl_Template tagName variables references children) = list_all lowers children"
| "lowers other = False"

section \<open>Properties of the list operations\<close>

subsection \<open>Basic facts about chains\<close>

lemma final_append [simp]: "final p (xs @ ys) = final (final p xs) ys"
  by (induction xs arbitrary: p) auto

lemma final_last: "xs \<noteq> [] \<Longrightarrow> final p xs = Some (last xs)"
  by (induction xs arbitrary: p) auto

lemma first_append [simp]: "first (xs @ ys) q = first xs (first ys q)"
  by (cases xs) auto

lemma first_hd: "xs \<noteq> [] \<Longrightarrow> first xs q = Some (hd xs)"
  by (cases xs) auto

lemma final_in: "final p xs = Some x \<Longrightarrow> p = Some x \<or> x \<in> set xs"
  by (induction xs arbitrary: p) auto

lemma first_in: "first xs q = Some x \<Longrightarrow> q = Some x \<or> x \<in> set xs"
  by (cases xs) auto

lemma seg_append [simp]:
  "seg h p (xs @ ys) q \<longleftrightarrow> seg h p xs (first ys q) \<and> seg h (final p xs) ys q"
  by (induction xs arbitrary: p) auto

lemma seg_upd_notin [simp]: "a \<notin> set xs \<Longrightarrow> seg (h(a := v)) p xs q = seg h p xs q"
  by (induction xs arbitrary: p) auto

lemma set_simps [simp]:
  "nodes (set_prev n v s) = (nodes s)(n := (nodes s n)\<lparr>prev_ptr := v\<rparr>)"
  "nodes (set_next n v s) = (nodes s)(n := (nodes s n)\<lparr>next_ptr := v\<rparr>)"
  "head (set_prev n v s) = head s" "head (set_next n v s) = head s"
  "tail (set_prev n v s) = tail s" "tail (set_next n v s) = tail s"
  by (simp_all add: set_prev_def set_next_def)

lemma get_simps:
  "get_prev s n = prev_ptr (nodes s n)" "get_next s n = next_ptr (nodes s n)"
  by (simp_all add: get_prev_def get_next_def)

lemmas list_op_defs =
  chain_def remove_node_def detach_def insertBefore_def insertAfter_def append_node_def
  prependList_def get_simps fresh_def Let_def

subsection \<open>What each operation does to the sequence\<close>

lemma remove_head:
  assumes "chain p s (x # zs)"
  shows "\<exists>s'. remove_node x s = (Ok (first zs None), s') \<and> chain (Some x) s' zs \<and> fresh s' x"
  using assms by (cases zs) (auto simp: list_op_defs dest: final_in first_in)

lemma remove_inner:
  assumes "chain p s (ys @ y # x # zs)"
  shows "\<exists>s'. remove_node x s = (Ok (first zs None), s') \<and> chain p s' (ys @ y # zs) \<and> fresh s' x"
  using assms by (cases zs) (auto simp: list_op_defs dest: final_in first_in)

lemma insertBefore_dll:
  assumes "dll s (ys @ b # zs)" "n \<notin> set (ys @ b # zs)"
  shows "dll (insertBefore b n s) (ys @ n # b # zs)"
  using assms by (cases ys rule: rev_cases) (auto simp: dll_def list_op_defs dest: final_in first_in)

lemma insertAfter_dll:
  assumes "dll s (ys @ a # zs)" "n \<notin> set (ys @ a # zs)"
  shows "dll (insertAfter a n s) (ys @ a # n # zs)"
  using assms by (cases zs) (auto simp: dll_def list_op_defs dest: final_in first_in)

lemma append_dll:
  assumes "dll s xs" "n \<notin> set xs" "fresh s n"
  shows "dll (append_node n s) (xs @ [n])"
  using assms by (cases xs rule: rev_cases) (auto simp: dll_def list_op_defs dest: final_in first_in)

lemma prependList_nonempty:
  assumes "tail other = Some lt" "head other = Some lh"
  shows "prependList other s =
    (case head s of
       None \<Rightarrow> s\<lparr>head := Some lh, tail := Some lt\<rparr>
     | Some h \<Rightarrow> (set_next lt (Some h) (set_prev h (Some lt) s))\<lparr>head := Some lh\<rparr>)"
  using assms by (simp add: prependList_def Let_def split: option.splits)

lemma prependList_chain:
  assumes "chain p s xs" "chain q (s\<lparr>head := head other, tail := tail other\<rparr>) ys"
    "set xs \<inter> set ys = {}"
  shows "chain (if ys = [] then p else q) (prependList other s) (ys @ xs)"
proof (cases ys rule: rev_cases)
  case Nil
  with assms show ?thesis by (auto simp: list_op_defs)
next
  case (snoc ys' y)
  then have ne: "ys \<noteq> []" by simp
  from assms(2) snoc have t: "tail other = Some y" by (simp add: chain_def)
  from assms(2) ne have h: "head other = Some (hd ys)" by (simp add: chain_def first_hd)
  from assms(2) snoc have ys: "distinct ys'" "y \<notin> set ys'" "seg (nodes s) q ys' (Some y)"
    "prev_ptr (nodes s y) = final q ys'" "next_ptr (nodes s y) = None"
    by (simp_all add: chain_def)
  from snoc have hd: "first ys' (Some y) = Some (hd ys)" by (cases ys') simp_all
  note pl = prependList_nonempty[OF t h, of s]
  show ?thesis
  proof (cases xs)
    case Nil
    with assms(1) ys hd snoc show ?thesis by (auto simp: pl chain_def)
  next
    case (Cons x xs')
    with assms(1,3) ys hd snoc show ?thesis
      by (auto simp: pl chain_def dest: final_in first_in)
  qed
qed

lemma forEach_loop_seg:
  "seg (nodes s) p xs None \<Longrightarrow>
   forEach_loop cb s (first xs None) acc = Some (foldl (\<lambda>a n. cb n a) acc xs)"
proof (induction xs arbitrary: p acc)
  case Nil
  show ?case by (subst forEach_loop.simps) simp
next
  case (Cons x xs)
  from Cons.prems have "seg (nodes s) (Some x) xs None" "get_next s x = first xs None"
    by (simp_all add: get_simps)
  with Cons.IH[of "Some x" "cb x acc"] show ?case
    by (subst forEach_loop.simps) simp
qed

lemma foldl_snoc: "foldl (\<lambda>a n. a @ [n]) acc xs = acc @ xs"
  by (induction xs arbitrary: acc) auto

lemma toArray_chain: "chain p s xs \<Longrightarrow> toArray s = Some xs"
  using forEach_loop_seg[of s p xs "\<lambda>node arr. arr @ [node]" "[]"]
  by (simp add: toArray_def forEach_def chain_def foldl_snoc)


lemma seg_cong: "(\<And>x. x \<in> set xs \<Longrightarrow> h x = h' x) \<Longrightarrow> seg h p xs q = seg h' p xs q"
  by (induction xs arbitrary: p) auto

lemma replace_step:
  assumes "dll s (A @ n # B)" "n' \<notin> set (A @ n # B)"
    "head s1 = head s" "tail s1 = tail s" "\<And>m. m \<noteq> n' \<Longrightarrow> nodes s1 m = nodes s m"
    "get_prev s1 n' = get_prev s n" "get_next s1 n' = get_next s n"
  shows "dll (relink n' s1) (A @ n' # B) \<and> get_next (relink n' s1) n' = first B None"
proof -
  have A: "seg (nodes s1) p A q = seg (nodes s) p A q" for p q
  proof (rule seg_cong)
    fix x assume "x \<in> set A"
    with assms(2) have "x \<noteq> n'" by auto
    then show "nodes s1 x = nodes s x" by (rule assms(5))
  qed
  have B: "seg (nodes s1) p B q = seg (nodes s) p B q" for p q
  proof (rule seg_cong)
    fix x assume "x \<in> set B"
    with assms(2) have "x \<noteq> n'" by auto
    then show "nodes s1 x = nodes s x" by (rule assms(5))
  qed
  show ?thesis
    using assms A B
    by (cases A rule: rev_cases; cases B)
      (auto simp: dll_def chain_def relink_def get_simps Let_def dest: final_in first_in)
qed


lemma visit_loop_Some:
  "visit_loop v (Some n) s =
     (case v n s of (n', s1) \<Rightarrow> visit_loop v (get_next (relink n' s1) n') (relink n' s1))"
  by (subst visit_loop.simps) simp

lemma visit_loop_None: "visit_loop v None s = Some s"
  by (subst visit_loop.simps) simp

lemma visit_loop_replaces:
  assumes v: "replaces_with f v"
  shows "dll s (map f done @ rest) \<Longrightarrow> distinct (done @ rest) \<Longrightarrow>
    inj_on f (set (done @ rest)) \<Longrightarrow> f ` set (done @ rest) \<inter> set rest = {} \<Longrightarrow>
    \<exists>s'. visit_loop v (first rest None) s = Some s' \<and> dll s' (map f (done @ rest))"
proof (induction rest arbitrary: "done" s)
  case Nil
  then show ?case by (simp add: visit_loop_None)
next
  case (Cons n rest)
  define s1 where "s1 = snd (v n s)"
  from v have "fst (v n s) = f n" by (simp add: replaces_with_def)
  then have s1: "v n s = (f n, s1)" by (simp add: s1_def prod_eq_iff)
  from v have hook: "head s1 = head s" "tail s1 = tail s"
    "\<And>m. m \<noteq> f n \<Longrightarrow> nodes s1 m = nodes s m"
    "get_prev s1 (f n) = get_prev s n" "get_next s1 (f n) = get_next s n"
    using s1 unfolding replaces_with_def by (metis snd_conv)+
  have "f n \<notin> f ` set done"
  proof
    assume "f n \<in> f ` set done"
    then obtain m where m: "m \<in> set done" "f m = f n" by auto
    moreover have "m \<in> set (done @ n # rest)" "n \<in> set (done @ n # rest)" using m by simp_all
    ultimately have "m = n" using Cons.prems(3) by (meson inj_onD)
    with m Cons.prems(2) show False by auto
  qed
  moreover from Cons.prems(4) have "f n \<notin> set (n # rest)" by auto
  ultimately have fr: "f n \<notin> set (map f done @ n # rest)" by auto
  from replace_step[OF Cons.prems(1) fr hook]
  have d: "dll (relink (f n) s1) (map f (done @ [n]) @ rest)"
    and nx: "get_next (relink (f n) s1) (f n) = first rest None" by simp_all
  have "\<exists>s'. visit_loop v (first rest None) (relink (f n) s1) = Some s' \<and>
      dll s' (map f ((done @ [n]) @ rest))"
  proof (rule Cons.IH[OF d])
    show "distinct ((done @ [n]) @ rest)" using Cons.prems(2) by simp
    show "inj_on f (set ((done @ [n]) @ rest))" using Cons.prems(3) by simp
    show "f ` set ((done @ [n]) @ rest) \<inter> set rest = {}" using Cons.prems(4) by auto
  qed
  then show ?case by (simp add: visit_loop_Some s1 nx)
qed

subsection \<open>\<open>sortSubset\<close> refines the insertion sort on sequences\<close>

lemma place_not_Nil [simp]: "place cmp n S \<noteq> []"
  by (cases S) auto

lemma set_place [simp]: "set (place cmp n S) = insert n (set S)"
  by (induction S) auto

lemma sort_scan_place:
  "dll s (pre @ S1 @ S2 @ R) \<Longrightarrow> n \<notin> set (pre @ S1 @ S2 @ R) \<Longrightarrow> S1 @ S2 \<noteq> [] \<Longrightarrow>
   \<exists>b s'. sort_scan cmp n (first R None) (hd (S1 @ S2)) (first (S2 @ R) None) s
             = Some (Ok (b, hd (S1 @ place (on_nodes cmp) n S2)), s') \<and>
     (b \<longrightarrow> dll s' (pre @ S1 @ place (on_nodes cmp) n S2 @ R) \<and> S2 \<noteq> [] \<and> last (place (on_nodes cmp) n S2) = last S2) \<and>
     (\<not> b \<longrightarrow> s' = s \<and> place (on_nodes cmp) n S2 = S2 @ [n])"
proof (induction S2 arbitrary: S1)
  case Nil
  then have "sort_scan cmp n (first R None) (hd (S1 @ [])) (first ([] @ R) None) s
      = Some (Ok (False, hd (S1 @ place (on_nodes cmp) n [])), s)"
    by (subst sort_scan.simps) simp
  then show ?case by (intro exI[of _ False] exI[of _ s]) simp
next
  case (Cons p S2)
  from Cons.prems(1) have d: "distinct (pre @ S1 @ p # S2 @ R)" by (simp add: dll_def chain_def)
  then have "first R None \<noteq> Some p" by (auto dest: first_in)
  then have ne: "first ((p # S2) @ R) None \<noteq> first R None" by simp
  show ?case
  proof (cases "cmp n (Some p) < 0")
    case True
    from Cons.prems(1,2) have "dll (insertBefore p n s) ((pre @ S1) @ n # p # S2 @ R)"
      by (intro insertBefore_dll) simp_all
    moreover have "(if p = hd (S1 @ p # S2) then n else hd (S1 @ p # S2)) = hd (S1 @ n # p # S2)"
      using d by (cases S1) auto
    ultimately show ?thesis using True ne
      by (intro exI[of _ True] exI[of _ "insertBefore p n s"], subst sort_scan.simps) simp
  next
    case False
    from Cons.prems(1) have nx: "get_next s p = first (S2 @ R) None"
      by (simp add: dll_def chain_def get_simps)
    have "\<exists>b s'. sort_scan cmp n (first R None) (hd (S1 @ p # S2)) (first (S2 @ R) None) s
             = Some (Ok (b, hd (S1 @ p # place (on_nodes cmp) n S2)), s') \<and>
        (b \<longrightarrow> dll s' (pre @ S1 @ p # place (on_nodes cmp) n S2 @ R) \<and> S2 \<noteq> [] \<and>
                   last (place (on_nodes cmp) n S2) = last S2) \<and>
        (\<not> b \<longrightarrow> s' = s \<and> place (on_nodes cmp) n S2 = S2 @ [n])"
      using Cons.IH[of "S1 @ [p]"] Cons.prems by simp
    then obtain b s' where
      1: "sort_scan cmp n (first R None) (hd (S1 @ p # S2)) (first (S2 @ R) None) s
             = Some (Ok (b, hd (S1 @ p # place (on_nodes cmp) n S2)), s')" and
      2: "b \<longrightarrow> dll s' (pre @ S1 @ p # place (on_nodes cmp) n S2 @ R) \<and> S2 \<noteq> [] \<and>
                   last (place (on_nodes cmp) n S2) = last S2" and
      3: "\<not> b \<longrightarrow> s' = s \<and> place (on_nodes cmp) n S2 = S2 @ [n]"
      by blast
    from 1 False ne nx
    have "sort_scan cmp n (first R None) (hd (S1 @ p # S2)) (first ((p # S2) @ R) None) s
             = Some (Ok (b, hd (S1 @ place (on_nodes cmp) n (p # S2))), s')"
      by (subst sort_scan.simps) simp
    moreover from 2 False
    have "b \<longrightarrow> dll s' (pre @ S1 @ place (on_nodes cmp) n (p # S2) @ R) \<and> p # S2 \<noteq> [] \<and>
                   last (place (on_nodes cmp) n (p # S2)) = last (p # S2)"
      by auto
    moreover from 3 False have "\<not> b \<longrightarrow> s' = s \<and> place (on_nodes cmp) n (p # S2) = (p # S2) @ [n]"
      by auto
    ultimately show ?thesis by blast
  qed
qed


lemma sort_loop_step:
  assumes "remove_node n s = (Ok r, s1)"
    "sort_scan cmp n (get_next s n) tS (Some tS) s1 = Some (Ok (b, tS'), s2)"
  shows "sort_loop cmp e tS tE (Some n) s =
    (let s3 = (if \<not> b then (case get_next s n of
                                Some m \<Rightarrow> insertBefore m n s2
                              | None \<Rightarrow> append_node n s2)
               else s2);
         tE' = (if \<not> b then n else tE)
     in if n \<noteq> e then sort_loop cmp e tS' tE' (get_next s n) s3
        else Some (Ok (tS', tE'), s3))"
  by (subst sort_loop.simps) (simp add: assms Let_def)

lemma sort_loop_refines:
  "dll s (pre @ S @ U @ post) \<Longrightarrow> S \<noteq> [] \<Longrightarrow> U \<noteq> [] \<Longrightarrow>
   \<exists>s'. sort_loop cmp (last U) (hd S) (last S) (first U None) s
          = Some (Ok (hd (foldl (\<lambda>sorted n. place (on_nodes cmp) n sorted) S U),
                      last (foldl (\<lambda>sorted n. place (on_nodes cmp) n sorted) S U)), s') \<and>
        dll s' (pre @ foldl (\<lambda>sorted n. place (on_nodes cmp) n sorted) S U @ post)"
proof (induction U arbitrary: S s)
  case Nil
  then show ?case by simp
next
  case (Cons n U)
  let ?R = "U @ post"
  from Cons.prems(1) have dist: "distinct (pre @ S @ n # U @ post)" by (simp add: dll_def chain_def)
  from Cons.prems(1) have nx: "get_next s n = first ?R None"
    by (simp add: dll_def chain_def get_simps)
  from Cons.prems(2) obtain S' y where Sy: "S = S' @ [y]" by (cases S rule: rev_cases) auto
  from Cons.prems(1) have "chain None s ((pre @ S') @ y # n # ?R)"
    by (simp add: dll_def Sy)
  from remove_inner[OF this] obtain s1 where
    rm: "remove_node n s = (Ok (first ?R None), s1)" and d1: "dll s1 (pre @ S @ ?R)"
    and f1: "fresh s1 n"
    by (auto simp: dll_def Sy)
  from dist have nin: "n \<notin> set (pre @ [] @ S @ ?R)" by auto
  from d1 have d1': "dll s1 (pre @ [] @ S @ ?R)" by simp
  from Cons.prems(2) have "[] @ S \<noteq> []" by simp
  from sort_scan_place[OF d1' nin this, of cmp] Cons.prems(2) obtain b s2 where
    sc: "sort_scan cmp n (first ?R None) (hd S) (Some (hd S)) s1
           = Some (Ok (b, hd (place (on_nodes cmp) n S)), s2)" and
    ins: "b \<longrightarrow> dll s2 (pre @ place (on_nodes cmp) n S @ ?R) \<and> last (place (on_nodes cmp) n S) = last S" and
    notins: "\<not> b \<longrightarrow> s2 = s1 \<and> place (on_nodes cmp) n S = S @ [n]"
    by (auto simp: first_hd)
  define s3 where "s3 = (if \<not> b then (case first ?R None of
                                Some m \<Rightarrow> insertBefore m n s2
                              | None \<Rightarrow> append_node n s2)
               else s2)"
  define tE where "tE = (if \<not> b then n else last S)"
  have d3: "dll s3 (pre @ place (on_nodes cmp) n S @ ?R)"
  proof (cases b)
    case True
    with ins show ?thesis by (simp add: s3_def)
  next
    case False
    with notins have eq: "s2 = s1" "place (on_nodes cmp) n S = S @ [n]" by simp_all
    show ?thesis
    proof (cases ?R)
      case Nil
      with d1 have "dll s1 (pre @ S)" by simp
      from append_dll[OF this _ f1] dist have "dll (append_node n s1) ((pre @ S) @ [n])" by simp
      with False eq Nil show ?thesis by (simp add: s3_def)
    next
      case (Cons m R')
      with d1 have "dll s1 ((pre @ S) @ m # R')" by simp
      from insertBefore_dll[OF this, of n] dist Cons
      have "dll (insertBefore m n s1) ((pre @ S) @ n # m # R')" by auto
      with False eq Cons show ?thesis by (simp add: s3_def)
    qed
  qed
  have tE: "tE = last (place (on_nodes cmp) n S)"
    using ins notins by (cases b) (simp_all add: tE_def)
  have step: "sort_loop cmp e (hd S) (last S) (Some n) s =
     (if n \<noteq> e then sort_loop cmp e (hd (place (on_nodes cmp) n S)) (last (place (on_nodes cmp) n S)) (first ?R None) s3
      else Some (Ok (hd (place (on_nodes cmp) n S), last (place (on_nodes cmp) n S)), s3))" for e
  proof -
    from sc nx have sc': "sort_scan cmp n (get_next s n) (hd S) (Some (hd S)) s1
           = Some (Ok (b, hd (place (on_nodes cmp) n S)), s2)" by simp
    show ?thesis
      unfolding sort_loop_step[OF rm sc'] Let_def nx s3_def[symmetric] tE_def[symmetric] tE
      by (rule refl)
  qed
  show ?case
  proof (cases "U = []")
    case True
    with step[of n] d3 show ?thesis by simp
  next
    case Une: False
    with dist have ne: "n \<noteq> last U" by auto
    from d3 have "dll s3 (pre @ place (on_nodes cmp) n S @ U @ post)" by simp
    from Cons.IH[OF this _ Une] step[of "last U"] ne Une
    show ?thesis by (simp add: first_hd)
  qed
qed


lemma sortSubset_refines:
  assumes "dll s (pre @ xs @ post)" "xs \<noteq> []"
  shows "\<exists>s'. sortSubset (hd xs) (last xs) cmp s
          = Some (Ok (hd (insertion_sort (on_nodes cmp) xs), last (insertion_sort (on_nodes cmp) xs)), s') \<and>
        dll s' (pre @ insertion_sort (on_nodes cmp) xs @ post) \<and>
        (hd xs = last xs \<longrightarrow> s' = s)"
proof -
  from assms(2) obtain x U where xs: "xs = x # U" by (cases xs) auto
  from assms(1) have dist: "distinct (pre @ x # U @ post)" by (simp add: xs dll_def chain_def)
  show ?thesis
  proof (cases "U = []")
    case True
    with assms(1) show ?thesis by (simp add: xs sortSubset_def insertion_sort_def)
  next
    case False
    with dist have ne: "x \<noteq> last U" by auto
    from assms(1) have nx: "get_next s x = first U None"
      using False by (cases U) (simp_all add: xs dll_def chain_def get_simps)
    from assms(1) have "dll s (pre @ [x] @ U @ post)" by (simp add: xs)
    from sort_loop_refines[OF this _ False, of cmp] ne nx False show ?thesis
      by (auto simp: xs sortSubset_def insertion_sort_def)
  qed
qed

lemma mset_place [simp]: "mset (place cmp n S) = add_mset n (mset S)"
  by (induction S) auto

lemma mset_foldl_place: "mset (foldl (\<lambda>sorted n. place cmp n sorted) S U) = mset S + mset U"
  by (induction U arbitrary: S) auto

lemma mset_insertion_sort: "mset (insertion_sort cmp xs) = mset xs"
  by (simp add: insertion_sort_def mset_foldl_place)

lemma non_decreasing_place:
  assumes "strict_partial_order cmp A" "insert n (set S) \<subseteq> A" "non_decreasing cmp S"
  shows "non_decreasing cmp (place cmp n S)"
  using assms(2,3)
proof (induction S)
  case Nil
  then show ?case by (simp add: non_decreasing_def)
next
  case (Cons p S)
  show ?case
  proof (cases "cmp n p < 0")
    case True
    have "\<not> cmp x n < 0" if "x \<in> set (p # S)" for x
    proof
      assume lt: "cmp x n < 0"
      from that Cons.prems(1) have mem: "x \<in> A" "n \<in> A" "p \<in> A" by auto
      with assms(1) lt True have xp: "cmp x p < 0" unfolding strict_partial_order_def by blast
      show False
      proof (cases "x = p")
        case True
        with xp assms(1) mem show False unfolding strict_partial_order_def by blast
      next
        case False
        with that have "x \<in> set S" by simp
        with Cons.prems(2) xp show False by (auto simp: non_decreasing_def)
      qed
    qed
    with True Cons.prems(2) show ?thesis by (auto simp: non_decreasing_def)
  next
    case False
    from Cons.prems have "non_decreasing cmp (place cmp n S)"
      by (intro Cons.IH) (auto simp: non_decreasing_def)
    with False Cons.prems(2) show ?thesis by (auto simp: non_decreasing_def)
  qed
qed

lemma non_decreasing_foldl:
  assumes "strict_partial_order cmp A"
  shows "set S \<union> set U \<subseteq> A \<Longrightarrow> non_decreasing cmp S \<Longrightarrow>
    non_decreasing cmp (foldl (\<lambda>sorted n. place cmp n sorted) S U)"
proof (induction U arbitrary: S)
  case Nil
  then show ?case by simp
next
  case (Cons n U)
  from Cons.prems have "non_decreasing cmp (place cmp n S)"
    by (intro non_decreasing_place[OF assms]) auto
  with Cons.prems(1) show ?case by (auto intro!: Cons.IH)
qed

lemma non_decreasing_insertion_sort:
  "strict_partial_order cmp (set xs) \<Longrightarrow> non_decreasing cmp (insertion_sort cmp xs)"
  unfolding insertion_sort_def
  by (rule non_decreasing_foldl[where A = "set xs"]) (simp_all add: non_decreasing_def)


lemma filter_place:
  assumes "strict_weak_order cmp A" "k \<in> A"
  shows "insert n (set S) \<subseteq> A \<Longrightarrow> non_decreasing cmp S \<Longrightarrow>
    filter (equal_under cmp k) (place cmp n S)
      = filter (equal_under cmp k) S @ (if equal_under cmp k n then [n] else [])"
proof (induction S)
  case Nil
  then show ?case by simp
next
  case (Cons p S)
  from assms(1) have irrefl: "\<And>a. a \<in> A \<Longrightarrow> \<not> cmp a a < 0"
    and negtrans: "\<And>a b c. a \<in> A \<Longrightarrow> b \<in> A \<Longrightarrow> c \<in> A \<Longrightarrow> cmp a b < 0 \<Longrightarrow> cmp a c < 0 \<or> cmp c b < 0"
    unfolding strict_weak_order_def strict_partial_order_def by blast+
  show ?case
  proof (cases "cmp n p < 0")
    case lt: True
    show ?thesis
    proof (cases "equal_under cmp k n")
      case True
      have "\<not> equal_under cmp k x" if "x \<in> set (p # S)" for x
      proof
        assume eq: "equal_under cmp k x"
        from that Cons.prems(1) have mem: "x \<in> A" "n \<in> A" "p \<in> A" by auto
        have "\<not> cmp x p < 0"
        proof (cases "x = p")
          case True
          with irrefl mem show ?thesis by simp
        next
          case False
          with that have "x \<in> set S" by simp
          with Cons.prems(2) show ?thesis by (auto simp: non_decreasing_def)
        qed
        with negtrans[OF mem(2) mem(3) mem(1) lt] have "cmp n x < 0" by simp
        from negtrans[OF mem(2) mem(1) assms(2) this] True eq show False
          by (simp add: equal_under_def)
      qed
      then have "filter (equal_under cmp k) (p # S) = []" by (simp only: filter_empty_conv) blast
      with lt True show ?thesis by simp
    next
      case False
      with lt show ?thesis by simp
    qed
  next
    case False
    from Cons.prems have "filter (equal_under cmp k) (place cmp n S)
      = filter (equal_under cmp k) S @ (if equal_under cmp k n then [n] else [])"
      by (intro Cons.IH) (auto simp: non_decreasing_def)
    with False show ?thesis by simp
  qed
qed

lemma filter_foldl_place:
  assumes "strict_weak_order cmp A" "k \<in> A"
  shows "set S \<union> set U \<subseteq> A \<Longrightarrow> non_decreasing cmp S \<Longrightarrow>
    filter (equal_under cmp k) (foldl (\<lambda>sorted n. place cmp n sorted) S U)
      = filter (equal_under cmp k) S @ filter (equal_under cmp k) U"
proof (induction U arbitrary: S)
  case Nil
  then show ?case by simp
next
  case (Cons n U)
  from assms(1) have po: "strict_partial_order cmp A" by (simp add: strict_weak_order_def)
  from Cons.prems have sub: "insert n (set S) \<subseteq> A" by auto
  from non_decreasing_place[OF po sub Cons.prems(2)]
  have nd: "non_decreasing cmp (place cmp n S)" .
  from Cons.prems(1) have "set (place cmp n S) \<union> set U \<subseteq> A" by auto
  from Cons.IH[OF this nd] filter_place[OF assms sub Cons.prems(2)]
  show ?case by simp
qed

lemma keeps_equal_order_insertion_sort:
  assumes "strict_weak_order cmp (set xs)"
  shows "keeps_equal_order cmp xs (insertion_sort cmp xs)"
  unfolding keeps_equal_order_def insertion_sort_def
proof
  fix k assume "k \<in> set xs"
  from filter_foldl_place[OF assms this, of "[]" xs]
  show "filter (equal_under cmp k) (foldl (\<lambda>sorted n. place cmp n sorted) [] xs)
      = filter (equal_under cmp k) xs"
    by (simp add: non_decreasing_def)
qed

text \<open>
  When \<open>remove\<close> throws: only on the path of a node that is not the head, when its \<open>prev\<close>
  is null, or when it is not the tail and its \<open>next\<close> is null.  The path of the head makes
  neither test.  On a member of a list that satisfies the invariant \<open>remove\<close> does not throw.
\<close>

lemma remove_raises_iff:
  "(raised (remove_node node s) \<longleftrightarrow>
      head s \<noteq> Some node \<and>
      (get_prev s node = None \<or> (tail s \<noteq> Some node \<and> get_next s node = None))) \<and>
   (dll s xs \<and> node \<in> set xs \<longrightarrow> \<not> raised (remove_node node s))"
proof
  show "raised (remove_node node s) \<longleftrightarrow>
      head s \<noteq> Some node \<and>
      (get_prev s node = None \<or> (tail s \<noteq> Some node \<and> get_next s node = None))"
    by (auto simp: remove_node_def get_simps Let_def split: option.splits)
  show "dll s xs \<and> node \<in> set xs \<longrightarrow> \<not> raised (remove_node node s)"
  proof
    assume a: "dll s xs \<and> node \<in> set xs"
    then obtain ys zs where xs: "xs = ys @ node # zs" by (auto simp: in_set_conv_decomp)
    show "\<not> raised (remove_node node s)"
    proof (cases ys rule: rev_cases)
      case Nil
      with a xs have "chain None s (node # zs)" by (simp add: dll_def)
      from remove_head[OF this] show ?thesis by auto
    next
      case (snoc ys' y)
      with a xs have "chain None s (ys' @ y # node # zs)" by (simp add: dll_def)
      from remove_inner[OF this] show ?thesis by auto
    qed
  qed
qed

text \<open>
  A traversal started inside a set of nodes that is closed under \<open>next\<close> never reaches
  \<open>null\<close>, so \<open>forEach\<close> and \<open>toArray\<close> do not return on such a list.
\<close>

lemma forEach_loop_cycle:
  assumes "forEach_loop cb s node acc = Some y"
  shows "\<not> (node \<in> Some ` C \<and> (\<forall>n\<in>C. get_next s n \<in> Some ` C))"
  by (rule forEach_loop.raw_induct[where
      P = "\<lambda>cb s node acc y. \<not> (node \<in> Some ` C \<and> (\<forall>n\<in>C. get_next s n \<in> Some ` C))",
      OF _ assms])
    (fastforce split: option.splits)

lemma toArray_cycle:
  "head s \<in> Some ` C \<Longrightarrow> \<forall>n\<in>C. get_next s n \<in> Some ` C \<Longrightarrow> toArray s = None"
  unfolding toArray_def forEach_def
  using forEach_loop_cycle[of "\<lambda>node arr. arr @ [node]" s "head s" "[]" _ C]
  by (cases "forEach_loop (\<lambda>node arr. arr @ [node]) s (head s) []") auto

section \<open>Claims about the list operations\<close>

text \<open>
  C5. For every list that satisfies the invariant of the data model and every member node \<open>x\<close>
  (the list is \<open>ys @ x # zs\<close>), \<open>remove(x)\<close> does not throw and returns what \<open>x.next\<close> was
  before the call: the node following \<open>x\<close>, or \<open>null\<close> when \<open>x\<close> was the tail.  Afterwards
  \<open>head\<close> and \<open>tail\<close> are the first and the last of the remaining nodes (both \<open>null\<close> when
  \<open>x\<close> was the sole member), a traversal visits exactly the remaining nodes in their order, and
  \<open>x\<close> has both links cleared.  The four cases (head, tail, sole member, interior) are the four
  combinations of \<open>ys\<close> and \<open>zs\<close> being empty or not.
\<close>

theorem remove_returns_next:
  assumes "dll s (ys @ x # zs)"
  shows "\<exists>s'. remove_node x s = (Ok (get_next s x), s') \<and> get_next s x = first zs None
            \<and> head s' = first (ys @ zs) None \<and> tail s' = final None (ys @ zs)
            \<and> toArray s' = Some (ys @ zs) \<and> fresh s' x"
proof (cases ys rule: rev_cases)
  case Nil
  with assms have c: "chain None s (x # zs)" by (simp add: dll_def)
  from remove_head[OF c] obtain s' where
    s': "remove_node x s = (Ok (first zs None), s')" "chain (Some x) s' zs" "fresh s' x" by blast
  from c have "get_next s x = first zs None" by (simp add: chain_def get_simps)
  with s' Nil toArray_chain[OF s'(2)] show ?thesis by (simp add: chain_def)
next
  case (snoc ys' y)
  with assms have c: "chain None s (ys' @ y # x # zs)" by (simp add: dll_def)
  from remove_inner[OF c] obtain s' where
    s': "remove_node x s = (Ok (first zs None), s')" "chain None s' (ys' @ y # zs)" "fresh s' x"
    by blast
  from c have "get_next s x = first zs None" by (simp add: chain_def get_simps)
  with s' snoc toArray_chain[OF s'(2)] show ?thesis by (simp add: chain_def)
qed

theorem remove_returns_next_witness:
  "dll (append_node 2 (append_node 1 (append_node 0 new_LinkedList))) ([0] @ 1 # [2]) \<and>
   fst (remove_node 1 (append_node 2 (append_node 1 (append_node 0 new_LinkedList)))) = Ok (Some 2)"
proof -
  let ?s = "append_node 2 (append_node 1 (append_node 0 new_LinkedList))"
  have d: "dll ?s ([0] @ 1 # [2])"
    by (simp add: dll_def chain_def append_node_def new_LinkedList_def FRESH_NODE_def)
  from remove_returns_next[OF d] show ?thesis using d by auto
qed

text \<open>
  C6. The calls \<open>append(0)\<close>, \<open>append(1)\<close>, \<open>remove(0)\<close>, \<open>insertBefore(1, 0)\<close>,
  \<open>remove(0)\<close> on a new list leave node \<open>0\<close> as the head, with \<open>1\<close> the tail and
  \<open>0.next\<close> null: a non-tail node with a null \<open>next\<close> link.  \<open>remove(0)\<close> on this list
  does not throw: the branch of \<open>remove\<close> for the head makes no test of \<open>node.next\<close>, which
  the branch for the other nodes makes, and it leaves the list with a null \<open>head\<close> and the
  non-null \<open>tail\<close> \<open>1\<close>.
\<close>

theorem remove_head_skips_next_check:
  "head (snd (remove_node 0 (insertBefore 1 0
      (snd (remove_node 0 (append_node 1 (append_node 0 new_LinkedList))))))) = Some 0 \<and>
   tail (snd (remove_node 0 (insertBefore 1 0
      (snd (remove_node 0 (append_node 1 (append_node 0 new_LinkedList))))))) = Some 1 \<and>
   get_next (snd (remove_node 0 (insertBefore 1 0
      (snd (remove_node 0 (append_node 1 (append_node 0 new_LinkedList))))))) 0 = None \<and>
   violates_chain_invariant (snd (remove_node 0 (insertBefore 1 0
      (snd (remove_node 0 (append_node 1 (append_node 0 new_LinkedList))))))) 0 \<and>
   raised (remove_node 0 (snd (remove_node 0 (insertBefore 1 0
      (snd (remove_node 0 (append_node 1 (append_node 0 new_LinkedList)))))))) = False \<and>
   head (snd (remove_node 0 (snd (remove_node 0 (insertBefore 1 0
      (snd (remove_node 0 (append_node 1 (append_node 0 new_LinkedList))))))))) = None \<and>
   tail (snd (remove_node 0 (snd (remove_node 0 (insertBefore 1 0
      (snd (remove_node 0 (append_node 1 (append_node 0 new_LinkedList))))))))) = Some 1"
  by (simp add: list_op_defs new_LinkedList_def FRESH_NODE_def violates_chain_invariant_def)

text \<open>
  C7. \<open>prependList(other)\<close> changes nothing when \<open>other\<close> is empty (its \<open>head\<close> or \<open>tail\<close> is
  null); when \<open>other\<close> is not empty and this list is, this list takes the \<open>head\<close> and \<open>tail\<close>
  of \<open>other\<close>; and for two well-formed lists without a common node, afterwards this list is
  well-formed again and a traversal visits the former nodes of \<open>other\<close> followed by the former
  nodes of this list.
\<close>

theorem prependList_splices:
  "(head other = None \<or> tail other = None \<longrightarrow> prependList other s = s) \<and>
   (head other \<noteq> None \<and> tail other \<noteq> None \<and> head s = None \<longrightarrow>
      prependList other s = s\<lparr>head := head other, tail := tail other\<rparr>) \<and>
   (dll s xs \<and> dll (s\<lparr>head := head other, tail := tail other\<rparr>) ys \<and> set xs \<inter> set ys = {} \<longrightarrow>
      dll (prependList other s) (ys @ xs) \<and> toArray (prependList other s) = Some (ys @ xs))"
proof (intro conjI impI)
  assume "head other = None \<or> tail other = None"
  then show "prependList other s = s"
    by (auto simp: prependList_def split: option.splits)
next
  assume "head other \<noteq> None \<and> tail other \<noteq> None \<and> head s = None"
  then show "prependList other s = s\<lparr>head := head other, tail := tail other\<rparr>"
    by (auto simp: prependList_def split: option.splits)
next
  assume a: "dll s xs \<and> dll (s\<lparr>head := head other, tail := tail other\<rparr>) ys \<and> set xs \<inter> set ys = {}"
  then have "chain (if ys = [] then None else None) (prependList other s) (ys @ xs)"
    unfolding dll_def by (intro prependList_chain) simp_all
  then have c: "chain None (prependList other s) (ys @ xs)" by simp
  then show "dll (prependList other s) (ys @ xs)" by (simp add: dll_def)
  from toArray_chain[OF c] show "toArray (prependList other s) = Some (ys @ xs)" .
qed

theorem prependList_splices_witness:
  "dll (append_node 1 (append_node 0 new_LinkedList)) [0, 1] \<and>
   dll (append_node 3 (append_node 2 ((append_node 1 (append_node 0 new_LinkedList))\<lparr>head := None, tail := None\<rparr>))) [2, 3] \<and>
   toArray (prependList \<lparr>head = Some 0, tail = Some 1\<rparr>
      (append_node 3 (append_node 2 ((append_node 1 (append_node 0 new_LinkedList))\<lparr>head := None, tail := None\<rparr>))))
     = Some [0, 1, 2, 3]"
proof -
  let ?a = "append_node 1 (append_node 0 new_LinkedList)"
  let ?b = "append_node 3 (append_node 2 (?a\<lparr>head := None, tail := None\<rparr>))"
  let ?other = "\<lparr>head = Some 0, tail = Some 1\<rparr>"
  have a: "dll ?a [0, 1]"
    by (simp add: dll_def chain_def append_node_def new_LinkedList_def FRESH_NODE_def)
  have b: "dll ?b [2, 3]"
    by (simp add: dll_def chain_def append_node_def new_LinkedList_def FRESH_NODE_def)
  have o: "dll (?b\<lparr>head := head ?other, tail := tail ?other\<rparr>) [0, 1]"
    by (simp add: dll_def chain_def append_node_def new_LinkedList_def FRESH_NODE_def)
  from prependList_splices[of ?other ?b "[2, 3]" "[0, 1]"] a b o show ?thesis by simp
qed

text \<open>
  C1. The sequence \<open>append(0)\<close>, \<open>append(1)\<close>, \<open>remove(0)\<close> on a new list meets every
  precondition and leaves the list with head \<open>1\<close> whose \<open>prev\<close> still refers to the removed node
  \<open>0\<close>: the branch of \<open>remove\<close> for the head does not clear \<open>node.next.prev\<close>.  Re-appending
  the detached node \<open>0\<close> and inserting a new node \<open>2\<close> before the head then writes \<open>0.next\<close>
  through the stale link, so that the tail \<open>0\<close> has a non-null \<open>next\<close> and the chain is a cycle:
  \<open>toArray\<close> does not return on it.
\<close>

theorem remove_head_keeps_stale_prev:
  "raised (remove_node 0 (append_node 1 (append_node 0 new_LinkedList))) = False \<and>
   fresh (snd (remove_node 0 (append_node 1 (append_node 0 new_LinkedList)))) 0 \<and>
   head (snd (remove_node 0 (append_node 1 (append_node 0 new_LinkedList)))) = Some 1 \<and>
   get_prev (snd (remove_node 0 (append_node 1 (append_node 0 new_LinkedList)))) 1 = Some 0 \<and>
   tail (insertBefore 1 2 (append_node 0
      (snd (remove_node 0 (append_node 1 (append_node 0 new_LinkedList)))))) = Some 0 \<and>
   get_next (insertBefore 1 2 (append_node 0
      (snd (remove_node 0 (append_node 1 (append_node 0 new_LinkedList)))))) 0 = Some 2 \<and>
   toArray (insertBefore 1 2 (append_node 0
      (snd (remove_node 0 (append_node 1 (append_node 0 new_LinkedList)))))) = None"
proof -
  let ?s = "insertBefore 1 2 (append_node 0
      (snd (remove_node 0 (append_node 1 (append_node 0 new_LinkedList)))))"
  have "toArray ?s = None"
    by (rule toArray_cycle[where C = "{0, 1, 2}"])
      (simp_all add: list_op_defs new_LinkedList_def FRESH_NODE_def)
  then show ?thesis
    by (simp add: list_op_defs new_LinkedList_def FRESH_NODE_def)
qed

text \<open>
  C4. Let the list satisfy the invariant with sequence \<open>xs\<close>, and let the \<open>visit\<close> hook return
  for each visited node \<open>n\<close> a newly constructed node \<open>f n\<close> (not a node of the list, and
  different for different \<open>n\<close>) whose links claim the position of \<open>n\<close>.  Then
  \<open>applyTransform\<close> returns, the list satisfies the invariant again, and its sequence is
  \<open>map f xs\<close>: the same length, each position holding the replacement of its former node.
\<close>

theorem applyTransform_replaces:
  assumes "replaces_with f v" "dll s xs" "inj_on f (set xs)" "f ` set xs \<inter> set xs = {}"
  shows "\<exists>s'. applyTransform \<lparr>visitList = None, visit = Some v, finalize = None\<rparr> s = Some s' \<and>
     dll s' (map f xs) \<and> toArray s' = Some (map f xs) \<and> length (map f xs) = length xs"
proof -
  from assms(2) have h: "head s = first xs None" and d: "distinct xs" by (simp_all add: dll_def chain_def)
  from visit_loop_replaces[OF assms(1), of s "[]" xs] assms d
  obtain s' where "visit_loop v (first xs None) s = Some s'" "dll s' (map f xs)" by auto
  with h toArray_chain[of None s' "map f xs"] show ?thesis
    by (simp add: applyTransform_def dll_def)
qed

theorem applyTransform_replaces_witness:
  "replaces_with (\<lambda>n. n + 10)
     (\<lambda>n (s::unit list_state). (n + 10, s\<lparr>nodes := (nodes s)(n + 10 := nodes s n)\<rparr>)) \<and>
   dll (append_node 1 (append_node 0 new_LinkedList)) [0, 1] \<and>
   (\<exists>s'. applyTransform \<lparr>visitList = None,
         visit = Some (\<lambda>n s. (n + 10, s\<lparr>nodes := (nodes s)(n + 10 := nodes s n)\<rparr>)),
         finalize = None\<rparr> (append_node 1 (append_node 0 new_LinkedList)) = Some s' \<and>
       toArray s' = Some [10, 11])"
proof -
  let ?v = "\<lambda>n (s::unit list_state). (n + 10, s\<lparr>nodes := (nodes s)(n + 10 := nodes s n)\<rparr>)"
  let ?s = "append_node 1 (append_node 0 new_LinkedList)"
  have r: "replaces_with (\<lambda>n. n + 10) ?v"
    by (simp add: replaces_with_def get_simps)
  have d: "dll ?s [0, 1]"
    by (simp add: dll_def chain_def append_node_def new_LinkedList_def FRESH_NODE_def)
  have i: "inj_on (\<lambda>n::nat. n + 10) (set [0, 1])" "(\<lambda>n::nat. n + 10) ` set [0, 1] \<inter> set [0, 1] = {}"
    by simp_all
  from applyTransform_replaces[OF r d i] r d show ?thesis by auto
qed


text \<open>
  C2, as the claim states it, for every comparator: this fails.  With the comparator of a partial
  order in which node 2 is less than node 0 and nodes 1 and 2 compare equal, sorting the list
  \<open>[0, 1, 2]\<close> gives \<open>[2, 0, 1]\<close>: node 2 has moved in front of node 1, although the two
  compare equal and node 1 came first.  With a comparator that always answers "less", sorting
  \<open>[0, 1]\<close> gives \<open>[1, 0]\<close>, which is not non-decreasing under that comparator.
\<close>

theorem sortSubset_partial_order_counterexample:
  "dll (fold append_node [0, 1, 2] new_LinkedList) [0, 1, 2] \<and>
   cmp_partial 1 (Some 2) = 0 \<and> cmp_partial 2 (Some 1) = 0 \<and>
   Option.bind (sortSubset 0 2 cmp_partial (fold append_node [0, 1, 2] new_LinkedList))
     (toArray \<circ> snd) = Some [2, 0, 1] \<and>
   Option.bind (sortSubset 0 1 (\<lambda>a b. - 1) (fold append_node [0, 1] new_LinkedList))
     (toArray \<circ> snd) = Some [1, 0] \<and>
   \<not> non_decreasing (on_nodes (\<lambda>a b. - 1)) [1, 0]"
proof -
  let ?s = "fold append_node [0, 1, 2] new_LinkedList"
  let ?t = "fold append_node [0, 1] new_LinkedList"
  have d: "dll ?s ([] @ [0, 1, 2] @ [])"
    by (simp add: dll_def chain_def append_node_def new_LinkedList_def FRESH_NODE_def)
  have i: "insertion_sort (on_nodes cmp_partial) [0, 1, 2] = [2, 0, 1]"
    by (simp add: insertion_sort_def cmp_partial_def)
  from sortSubset_refines[OF d, of cmp_partial]
  have "\<exists>s'. sortSubset 0 2 cmp_partial ?s = Some (Ok (2, 1), s') \<and> dll s' [2, 0, 1]"
    unfolding i by simp
  then obtain s' where
    "sortSubset 0 2 cmp_partial ?s = Some (Ok (2, 1), s')" "dll s' [2, 0, 1]"
    by blast
  with toArray_chain[of None s' "[2, 0, 1]"]
  have 1: "Option.bind (sortSubset 0 2 cmp_partial ?s) (toArray \<circ> snd) = Some [2, 0, 1]"
    by (simp add: dll_def)
  have e: "dll ?t ([] @ [0, 1] @ [])"
    by (simp add: dll_def chain_def append_node_def new_LinkedList_def FRESH_NODE_def)
  have j: "insertion_sort (on_nodes (\<lambda>a b. - 1)) [0, 1] = [1, 0]"
    by (simp add: insertion_sort_def)
  from sortSubset_refines[OF e, of "\<lambda>a b. - 1"]
  have "\<exists>t'. sortSubset 0 1 (\<lambda>a b. - 1) ?t = Some (Ok (1, 0), t') \<and> dll t' [1, 0]"
    unfolding j by simp
  then obtain t' where
    "sortSubset 0 1 (\<lambda>a b. - 1) ?t = Some (Ok (1, 0), t')" "dll t' [1, 0]"
    by blast
  with toArray_chain[of None t' "[1, 0]"]
  have 2: "Option.bind (sortSubset 0 1 (\<lambda>a b. - 1) ?t) (toArray \<circ> snd) = Some [1, 0]"
    by (simp add: dll_def)
  from d 1 2 show ?thesis by (simp add: cmp_partial_def non_decreasing_def)
qed

text \<open>
  C2, amended.  Let the list satisfy the invariant with sequence \<open>pre @ xs @ post\<close>, \<open>xs\<close>
  not empty, and let \<open>start\<close> and \<open>end\<close> be the first and the last node of \<open>xs\<close>.  For every
  comparator, \<open>sortSubset\<close> returns; the list is then \<open>pre @ ys @ post\<close> and satisfies the
  invariant, where \<open>ys\<close> is the insertion sort of \<open>xs\<close>; the returned \<open>start\<close> and \<open>end\<close> are
  the first and the last node of \<open>ys\<close> and are nodes of \<open>xs\<close>; \<open>ys\<close> is a permutation of
  \<open>xs\<close>; and when \<open>start = end\<close> the state is unchanged.  If being less under \<open>cmp\<close> is
  irreflexive and transitive on \<open>xs\<close>, then \<open>ys\<close> is non-decreasing.  If it is moreover a
  strict weak order on \<open>xs\<close>, then the nodes that compare equal keep their input order.
\<close>

theorem sortSubset_sorts:
  assumes "dll s (pre @ xs @ post)" "xs \<noteq> []"
  shows "\<exists>s'. sortSubset (hd xs) (last xs) cmp s
            = Some (Ok (hd (insertion_sort (on_nodes cmp) xs), last (insertion_sort (on_nodes cmp) xs)), s') \<and>
     dll s' (pre @ insertion_sort (on_nodes cmp) xs @ post) \<and>
     mset (insertion_sort (on_nodes cmp) xs) = mset xs \<and>
     hd (insertion_sort (on_nodes cmp) xs) \<in> set xs \<and> last (insertion_sort (on_nodes cmp) xs) \<in> set xs \<and>
     (strict_partial_order (on_nodes cmp) (set xs) \<longrightarrow> non_decreasing (on_nodes cmp) (insertion_sort (on_nodes cmp) xs)) \<and>
     (strict_weak_order (on_nodes cmp) (set xs) \<longrightarrow> keeps_equal_order (on_nodes cmp) xs (insertion_sort (on_nodes cmp) xs)) \<and>
     (hd xs = last xs \<longrightarrow> s' = s)"
proof -
  let ?ys = "insertion_sort (on_nodes cmp) xs"
  have m: "mset ?ys = mset xs" by (rule mset_insertion_sort)
  then have eq: "set ?ys = set xs" by (rule mset_eq_setD)
  with assms(2) have "?ys \<noteq> []" by auto
  then have "hd ?ys \<in> set ?ys" "last ?ys \<in> set ?ys" by simp_all
  with eq have mem: "hd ?ys \<in> set xs" "last ?ys \<in> set xs" by simp_all
  from sortSubset_refines[OF assms, of cmp] m mem
    non_decreasing_insertion_sort[of "on_nodes cmp" xs]
    keeps_equal_order_insertion_sort[of "on_nodes cmp" xs]
  show ?thesis by blast
qed

theorem sortSubset_sorts_witness:
  "dll (fold append_node [0, 1, 2, 3, 4] new_LinkedList) ([0] @ [1, 2, 3] @ [4]) \<and>
   strict_weak_order (on_nodes (cmp_key (\<lambda>n. if n = 1 then 3 else if n = 2 then 1 else 2))) (set [1, 2, 3]) \<and>
   insertion_sort (on_nodes (cmp_key (\<lambda>n. if n = 1 then 3 else if n = 2 then 1 else 2))) [1, 2, 3] = [2, 3, 1] \<and>
   (\<exists>s'. sortSubset 1 3 (cmp_key (\<lambda>n. if n = 1 then 3 else if n = 2 then 1 else 2))
           (fold append_node [0, 1, 2, 3, 4] new_LinkedList) = Some (Ok (2, 1), s') \<and>
         dll s' [0, 2, 3, 1, 4]) \<and>
   non_decreasing (on_nodes (cmp_key (\<lambda>n. if n = 1 then 3 else if n = 2 then 1 else 2))) [2, 3, 1]"
proof -
  let ?s = "fold append_node [0, 1, 2, 3, 4] new_LinkedList"
  let ?c = "cmp_key (\<lambda>n. if n = 1 then 3 else if n = 2 then 1 else 2)"
  have d: "dll ?s ([0] @ [1, 2, 3] @ [4])"
    by (simp add: dll_def chain_def append_node_def new_LinkedList_def FRESH_NODE_def)
  have w: "strict_weak_order (on_nodes ?c) (set [1, 2, 3])"
    by (auto simp: strict_weak_order_def strict_partial_order_def cmp_key_def)
  then have po: "strict_partial_order (on_nodes ?c) (set [1, 2, 3])" by (simp add: strict_weak_order_def)
  have i: "insertion_sort (on_nodes ?c) [1, 2, 3] = [2, 3, 1]"
    by (simp add: insertion_sort_def cmp_key_def)
  from sortSubset_sorts[OF d, of ?c] w po
  have "\<exists>s'. sortSubset 1 3 ?c ?s = Some (Ok (2, 1), s') \<and> dll s' [0, 2, 3, 1, 4]"
    and "non_decreasing (on_nodes ?c) [2, 3, 1]"
    unfolding i by auto
  with d w i show ?thesis by blast
qed


section \<open>Properties of the lowering pass\<close>

lemma list_ops_ir_list: "ir_list w l xs \<Longrightarrow> list_ops l w = Some (ops_of w xs)"
  unfolding ir_list_def dll_def list_ops_def ops_of_def
  by (drule toArray_chain) simp

lemma seg_links_cong:
  "(\<And>x. x \<in> set xs \<Longrightarrow> prev_ptr (h' x) = prev_ptr (h x) \<and> next_ptr (h' x) = next_ptr (h x))
   \<Longrightarrow> seg h' p xs q = seg h p xs q"
  by (induction xs arbitrary: p) auto

lemma dll_cong:
  assumes "dll s xs" "head s' = head s" "tail s' = tail s"
    "\<And>x. x \<in> set xs \<Longrightarrow> prev_ptr (nodes s' x) = prev_ptr (nodes s x) \<and>
                         next_ptr (nodes s' x) = next_ptr (nodes s x)"
  shows "dll s' xs"
proof -
  from assms(4) have "seg (nodes s') None xs None = seg (nodes s) None xs None"
    by (intro seg_links_cong) simp
  with assms show ?thesis by (simp add: dll_def chain_def)
qed

lemma append_node_frame:
  "b \<noteq> a \<Longrightarrow> tail s \<noteq> Some b \<Longrightarrow> nodes (append_node a s) b = nodes s b"
  by (auto simp: append_node_def split: option.splits)

lemma list_append_new:
  fixes w :: "('e, 'r, 'w) world" and x :: "('e, 'r) ir_op"
  assumes "ir_list w l xs" "ir_list w k ys" "set xs \<inter> set ys = {}"
    "\<forall>a\<in>set xs \<union> set ys. a < next_addr w"
  defines "a \<equiv> next_addr w"
  defines "r \<equiv> list_append a l (snd (new_node x w))"
  shows "fst (new_node x w) = a"
    and "ir_list (snd r) (fst r) (xs @ [a])" and "ir_list (snd r) k ys"
    and "next_addr (snd r) = Suc a" and "scopes (snd r) = scopes w"
    and "\<And>b. op (heap (snd r) b) = (if b = a then x else op (heap w b))"
    and "\<And>b. b \<noteq> a \<Longrightarrow> b \<notin> set xs \<Longrightarrow> heap (snd r) b = heap w b"
proof -
  let ?w1 = "snd (new_node x w)"
  let ?s = "list_in l ?w1"
  from assms(1,2) have xs: "dll (list_in l w) xs" and ys: "dll (list_in k w) ys"
    by (simp_all add: ir_list_def)
  from assms(4) have nin: "a \<notin> set xs" "a \<notin> set ys" by (auto simp: a_def)
  have h1: "nodes ?s = (heap w)(a := \<lparr>prev_ptr = None, next_ptr = None, op = x\<rparr>)"
    by (simp add: list_in_def new_node_def a_def)
  from nin have d1: "dll ?s xs"
    by (intro dll_cong[OF xs]) (auto simp: list_in_def new_node_def a_def)
  have fr: "fresh ?s a" by (simp add: fresh_def get_simps h1)
  from append_dll[OF d1 nin(1) fr] have d2: "dll (append_node a ?s) (xs @ [a])" .
  have r: "fst r = \<lparr>head = head (append_node a ?s), tail = tail (append_node a ?s)\<rparr>"
    "snd r = ?w1\<lparr>heap := nodes (append_node a ?s)\<rparr>"
    by (simp_all add: r_def list_append_def Let_def)
  have tl: "tail ?s = final None xs" using d1 by (simp add: dll_def chain_def)
  show frame: "heap (snd r) b = heap w b" if "b \<noteq> a" "b \<notin> set xs" for b
  proof -
    from that tl have "tail ?s \<noteq> Some b" by (auto dest: final_in)
    from append_node_frame[OF that(1) this] that(1) show ?thesis
      by (simp add: r h1)
  qed
  show "op (heap (snd r) b) = (if b = a then x else op (heap w b))" for b
    by (auto simp: r append_node_def h1 split: option.splits)
  show "ir_list (snd r) (fst r) (xs @ [a])"
    unfolding ir_list_def by (rule dll_cong[OF d2]) (simp_all add: r list_in_def)
  show "ir_list (snd r) k ys"
    unfolding ir_list_def
  proof (rule dll_cong[OF ys])
    fix b assume "b \<in> set ys"
    with nin assms(3) have "b \<noteq> a" "b \<notin> set xs" by auto
    then show "prev_ptr (nodes (list_in k (snd r)) b) = prev_ptr (nodes (list_in k w) b) \<and>
      next_ptr (nodes (list_in k (snd r)) b) = next_ptr (nodes (list_in k w) b)"
      using frame by (simp add: list_in_def)
  qed (simp_all add: list_in_def)
  show "next_addr (snd r) = Suc a" "scopes (snd r) = scopes w" "fst (new_node x w) = a"
    by (simp_all add: r new_node_def a_def)
qed

lemma conv_ok_scopes [simp]: "conv_ok (c, w\<lparr>scopes := sw\<rparr>) cs us = conv_ok (c, w) cs us"
  by (simp add: conv_ok_def ir_list_def list_in_def)

lemma create_append_grown:
  fixes w :: "('e, 'r, 'w) world" and x :: "('e, 'r) ir_op" and c :: "'h TemplateToIrConverter"
  assumes "conv_ok (c, w) cs us"
  defines "cw' \<equiv> create_append (next_addr w) (c, snd (new_node x w))"
  shows "grown (c, w) cw' cs us [next_addr w] []"
    and "\<And>b. op (heap (snd cw') b) = (if b = next_addr w then x else op (heap w b))"
    and "scopes (snd cw') = scopes w" and "next_addr (snd cw') = Suc (next_addr w)"
    and "update (fst cw') = update c"
proof -
  let ?r = "list_append (next_addr w) (create c) (snd (new_node x w))"
  from assms(1) have a: "ir_list w (create c) cs" "ir_list w (update c) us"
    "set cs \<inter> set us = {}" "\<forall>a\<in>set cs \<union> set us. a < next_addr w"
    by (simp_all add: conv_ok_def)
  note L = list_append_new[OF a, where x = x]
  have cw': "cw' = (c\<lparr>create := fst ?r\<rparr>, snd ?r)"
    by (simp add: cw'_def create_append_def split: prod.splits)
  from L a(3,4) show "grown (c, w) cw' cs us [next_addr w] []"
    by (auto simp: grown_def conv_ok_def cw' intro: less_SucI)
  from L show "\<And>b. op (heap (snd cw') b) = (if b = next_addr w then x else op (heap w b))"
    "scopes (snd cw') = scopes w"
    "next_addr (snd cw') = Suc (next_addr w)" "update (fst cw') = update c"
    by (simp_all add: cw')
qed

lemma update_append_grown:
  fixes w :: "('e, 'r, 'w) world" and x :: "('e, 'r) ir_op" and c :: "'h TemplateToIrConverter"
  assumes "conv_ok (c, w) cs us"
  defines "cw' \<equiv> update_append (next_addr w) (c, snd (new_node x w))"
  shows "grown (c, w) cw' cs us [] [next_addr w]"
    and "\<And>b. op (heap (snd cw') b) = (if b = next_addr w then x else op (heap w b))"
    and "scopes (snd cw') = scopes w" and "next_addr (snd cw') = Suc (next_addr w)"
    and "create (fst cw') = create c"
proof -
  let ?r = "list_append (next_addr w) (update c) (snd (new_node x w))"
  from assms(1) have a: "ir_list w (update c) us" "ir_list w (create c) cs"
    "set us \<inter> set cs = {}" "\<forall>a\<in>set us \<union> set cs. a < next_addr w"
    by (auto simp: conv_ok_def)
  note L = list_append_new[OF a, where x = x]
  have cw': "cw' = (c\<lparr>update := fst ?r\<rparr>, snd ?r)"
    by (simp add: cw'_def update_append_def split: prod.splits)
  from L a(3,4) show "grown (c, w) cw' cs us [] [next_addr w]"
    by (auto simp: grown_def conv_ok_def cw' intro: less_SucI)
  from L show "\<And>b. op (heap (snd cw') b) = (if b = next_addr w then x else op (heap w b))"
    "scopes (snd cw') = scopes w"
    "next_addr (snd cw') = Suc (next_addr w)" "create (fst cw') = create c"
    by (simp_all add: cw')
qed

lemma grown_refl: "conv_ok cw cs us \<Longrightarrow> grown cw cw cs us [] []"
  by (simp add: grown_def)

lemma grown_conv_ok: "grown cw cw' cs us cs' us' \<Longrightarrow> conv_ok cw' (cs @ cs') (us @ us')"
  by (simp add: grown_def)

lemma grownD:
  assumes "grown cw cw' cs us cs' us'"
  shows "conv_ok cw' (cs @ cs') (us @ us')" and "scope (fst cw') = scope (fst cw)"
    and "next_addr (snd cw) \<le> next_addr (snd cw')"
    and "\<And>a. a \<in> set cs' \<union> set us' \<Longrightarrow> next_addr (snd cw) \<le> a"
    and "\<And>b. b < next_addr (snd cw) \<Longrightarrow> op (heap (snd cw') b) = op (heap (snd cw) b)"
    and "\<And>b. b < next_addr (snd cw) \<Longrightarrow> b \<notin> set cs \<union> set us \<Longrightarrow>
            heap (snd cw') b = heap (snd cw) b"
  using assms unfolding grown_def by blast+

lemma grownI:
  assumes "conv_ok cw' (cs @ cs') (us @ us')" and "scope (fst cw') = scope (fst cw)"
    and "next_addr (snd cw) \<le> next_addr (snd cw')"
    and "\<And>a. a \<in> set cs' \<union> set us' \<Longrightarrow> next_addr (snd cw) \<le> a"
    and "\<And>b. b < next_addr (snd cw) \<Longrightarrow> op (heap (snd cw') b) = op (heap (snd cw) b)"
    and "\<And>b. b < next_addr (snd cw) \<Longrightarrow> b \<notin> set cs \<union> set us \<Longrightarrow>
            heap (snd cw') b = heap (snd cw) b"
  shows "grown cw cw' cs us cs' us'"
  using assms unfolding grown_def by blast

lemma grown_trans:
  assumes 1: "grown cw cw1 cs us c1 u1" and 2: "grown cw1 cw2 (cs @ c1) (us @ u1) c2 u2"
  shows "grown cw cw2 cs us (c1 @ c2) (u1 @ u2)"
proof (rule grownI)
  note A = grownD[OF 1] and B = grownD[OF 2]
  from B(1) show "conv_ok cw2 (cs @ c1 @ c2) (us @ u1 @ u2)" by simp
  from A(2) B(2) show "scope (fst cw2) = scope (fst cw)" by simp
  from A(3) B(3) show "next_addr (snd cw) \<le> next_addr (snd cw2)" by simp
  show "next_addr (snd cw) \<le> a" if "a \<in> set (c1 @ c2) \<union> set (u1 @ u2)" for a
  proof (cases "a \<in> set c1 \<union> set u1")
    case True
    then show ?thesis by (rule A(4))
  next
    case False
    with that have "a \<in> set c2 \<union> set u2" by auto
    from B(4)[OF this] A(3) show ?thesis by simp
  qed
  show "op (heap (snd cw2) b) = op (heap (snd cw) b)" if "b < next_addr (snd cw)" for b
  proof -
    from that A(3) have "b < next_addr (snd cw1)" by simp
    from B(5)[OF this] A(5)[OF that] show ?thesis by simp
  qed
  show "heap (snd cw2) b = heap (snd cw) b"
    if "b < next_addr (snd cw)" "b \<notin> set cs \<union> set us" for b
  proof -
    from that A(3) have lt: "b < next_addr (snd cw1)" by simp
    have "b \<notin> set c1 \<union> set u1"
    proof
      assume "b \<in> set c1 \<union> set u1"
      from A(4)[OF this] that(1) show False by simp
    qed
    with that(2) have "b \<notin> set (cs @ c1) \<union> set (us @ u1)" by simp
    from B(6)[OF lt this] A(6)[OF that] show ?thesis by simp
  qed
qed

lemma grown_scopes_left [simp]:
  "grown (c, w\<lparr>scopes := sw\<rparr>) cw' cs us cs' us' = grown (c, w) cw' cs us cs' us'"
  by (simp add: grown_def)

lemma set_op_simps [simp]:
  "next_addr (set_op a f w) = next_addr w" "scopes (set_op a f w) = scopes w"
  "op (heap (set_op a f w) b) = (if b = a then f (op (heap w a)) else op (heap w b))"
  "prev_ptr (heap (set_op a f w) b) = prev_ptr (heap w b)"
  "next_ptr (heap (set_op a f w) b) = next_ptr (heap w b)"
  "b \<noteq> a \<Longrightarrow> heap (set_op a f w) b = heap w b"
  by (simp_all add: set_op_def)

lemma ir_list_set_op [simp]: "ir_list (set_op a f w) l xs = ir_list w l xs"
proof -
  have "seg (heap (set_op a f w)) None xs None = seg (heap w) None xs None"
    by (rule seg_links_cong) simp
  then show ?thesis by (simp add: ir_list_def dll_def chain_def list_in_def)
qed

lemma conv_ok_set_op [simp]: "conv_ok (c, set_op a f w) cs us = conv_ok (c, w) cs us"
  by (simp add: conv_ok_def)

lemma grown_set_op:
  assumes "grown cw (c, w) cs us cs' us'" "next_addr (snd cw) \<le> a"
  shows "grown cw (c, set_op a f w) cs us cs' us'"
proof (rule grownI)
  note A = grownD[OF assms(1)]
  from A(1) show "conv_ok (c, set_op a f w) (cs @ cs') (us @ us')" by simp
  from A(2) show "scope (fst (c, set_op a f w)) = scope (fst cw)" by simp
  from A(3) show "next_addr (snd cw) \<le> next_addr (snd (c, set_op a f w))" by simp
  show "\<And>x. x \<in> set cs' \<union> set us' \<Longrightarrow> next_addr (snd cw) \<le> x" by (rule A(4))
  show "op (heap (snd (c, set_op a f w)) b) = op (heap (snd cw) b)" if "b < next_addr (snd cw)" for b
    using A(5)[OF that] that assms(2) by simp
  show "heap (snd (c, set_op a f w)) b = heap (snd cw) b"
    if "b < next_addr (snd cw)" "b \<notin> set cs \<union> set us" for b
    using A(6)[OF that] that assms(2) by simp
qed

lemma visitText_eq:
  "visitText svc v (c, w) =
     (Ok (), create_append (next_addr w)
        (c, snd (new_node (Text (fst (allocateId svc (scope c) (scopes w))) (Some v))
                   (w\<lparr>scopes := snd (allocateId svc (scope c) (scopes w))\<rparr>))))"
  by (simp add: visitText_def new_node_def split: prod.splits)

lemma visitText_grown:
  assumes "conv_ok (c, w) cs us"
  shows "\<exists>cw'. visitText svc v (c, w) = (Ok (), cw') \<and> grown (c, w) cw' cs us [next_addr w] [] \<and>
    (\<forall>b. op (heap (snd cw') b) =
       (if b = next_addr w then Text (fst (allocateId svc (scope c) (scopes w))) (Some v)
        else op (heap w b))) \<and>
    scopes (snd cw') = snd (allocateId svc (scope c) (scopes w)) \<and>
    update (fst cw') = update c"
proof -
  let ?w = "w\<lparr>scopes := snd (allocateId svc (scope c) (scopes w))\<rparr>"
  from assms have ok: "conv_ok (c, ?w) cs us" by simp
  note L = create_append_grown[OF ok, where x = "Text (fst (allocateId svc (scope c) (scopes w))) (Some v)"]
  from L show ?thesis unfolding visitText_eq by simp
qed

lemma ops_of_frame:
  "(\<And>b. b \<in> set xs \<Longrightarrow> op (heap w' b) = op (heap w b)) \<Longrightarrow> ops_of w' xs = ops_of w xs"
  by (simp add: ops_of_def)

lemma ops_of_append [simp]: "ops_of w (xs @ ys) = ops_of w xs @ ops_of w ys"
  by (simp add: ops_of_def)

lemma ops_of_Nil [simp]: "ops_of w [] = []"
  by (simp add: ops_of_def)

lemma ops_of_single [simp]: "ops_of w [a] = [op (heap w a)]"
  by (simp add: ops_of_def)

lemma conv_ok_lt: "conv_ok (c, w) cs us \<Longrightarrow> b \<in> set cs \<union> set us \<Longrightarrow> b < next_addr w"
  by (auto simp: conv_ok_def)

lemma visitBoundText_throw:
  assumes "\<not> is_interpolation (unwrap_source v)"
  shows "visitBoundText svc v (c, w) =
     (Throw (Error ''BoundText is not an interpolation expression?''),
      create_append (next_addr w)
        (c, snd (new_node (Text (fst (allocateId svc (scope c) (scopes w))) None)
                   (w\<lparr>scopes := snd (allocateId svc (scope c) (scopes w))\<rparr>))))"
  using assms
  by (cases "unwrap_source v") (simp_all add: visitBoundText_def new_node_def Let_def split: prod.splits)

lemma visitBoundText_ok:
  assumes "unwrap_source v = Interpolation strings expressions"
  shows "visitBoundText svc v (c, w) =
     (let cw1 = create_append (next_addr w)
            (c, snd (new_node (Text (fst (allocateId svc (scope c) (scopes w))) None)
                   (w\<lparr>scopes := snd (allocateId svc (scope c) (scopes w))\<rparr>)))
      in (Ok (), update_append (next_addr (snd cw1))
            (fst cw1, snd (new_node (TextInterpolate (fst (allocateId svc (scope c) (scopes w)))
                      (map (process svc (scope (fst cw1)) (scopes (snd cw1))) expressions) strings)
                    (snd cw1)))))"
  using assms
  by (simp add: visitBoundText_def new_node_def Let_def split: prod.splits)

lemma visitBoundText_throw_grown:
  assumes "conv_ok (c, w) cs us" "\<not> is_interpolation (unwrap_source v)"
  shows "\<exists>cw'. visitBoundText svc v (c, w) =
        (Throw (Error ''BoundText is not an interpolation expression?''), cw') \<and>
    grown (c, w) cw' cs us [next_addr w] [] \<and>
    (\<forall>b. op (heap (snd cw') b) =
       (if b = next_addr w then Text (fst (allocateId svc (scope c) (scopes w))) None
        else op (heap w b))) \<and>
    scopes (snd cw') = snd (allocateId svc (scope c) (scopes w)) \<and>
    update (fst cw') = update c"
proof -
  let ?w = "w\<lparr>scopes := snd (allocateId svc (scope c) (scopes w))\<rparr>"
  from assms have ok: "conv_ok (c, ?w) cs us" by simp
  note L = create_append_grown[OF ok, where x = "Text (fst (allocateId svc (scope c) (scopes w))) None"]
  from L show ?thesis unfolding visitBoundText_throw[OF assms(2)] by simp
qed

lemma visitBoundText_ok_grown:
  fixes w :: "('e, 'r, 'w) world" and c :: "'h TemplateToIrConverter"
  assumes "conv_ok (c, w) cs us" "unwrap_source v = Interpolation strings expressions"
  shows "\<exists>cw'. visitBoundText svc v (c, w) = (Ok (), cw') \<and>
    grown (c, w) cw' cs us [next_addr w] [Suc (next_addr w)] \<and>
    (\<forall>b. op (heap (snd cw') b) =
       (if b = next_addr w then Text (fst (allocateId svc (scope c) (scopes w))) None
        else if b = Suc (next_addr w) then
          TextInterpolate (fst (allocateId svc (scope c) (scopes w)))
            (map (process svc (scope c) (snd (allocateId svc (scope c) (scopes w)))) expressions)
            strings
        else op (heap w b))) \<and>
    scopes (snd cw') = snd (allocateId svc (scope c) (scopes w))"
proof -
  let ?id = "fst (allocateId svc (scope c) (scopes w))"
  let ?sw = "snd (allocateId svc (scope c) (scopes w))"
  let ?w = "w\<lparr>scopes := ?sw\<rparr>"
  define cw1 where "cw1 = create_append (next_addr w) (c, snd (new_node (Text ?id None) ?w))"
  define x :: "('e, 'r) ir_op" where "x = TextInterpolate ?id (map (process svc (scope (fst cw1)) (scopes (snd cw1))) expressions) strings"
  define cw2 where "cw2 = update_append (next_addr (snd cw1)) (fst cw1, snd (new_node x (snd cw1)))"
  from assms have ok: "conv_ok (c, ?w) cs us" by simp
  note L = create_append_grown[OF ok, where x = "Text ?id None", simplified, folded cw1_def]
  from grownD(1)[OF L(1)] have ok1: "conv_ok (fst cw1, snd cw1) (cs @ [next_addr w]) (us @ [])" by simp
  note M = update_append_grown[OF ok1, where x = x, folded cw2_def]
  from grown_trans[OF L(1)] M(1) have g: "grown (c, w) cw2 cs us [next_addr w] [Suc (next_addr w)]"
    by (simp add: L)
  from grownD(2)[OF L(1)] have sc: "scope (fst cw1) = scope c" by simp
  have eq: "visitBoundText svc v (c, w) = (Ok (), cw2)"
    unfolding visitBoundText_ok[OF assms(2)] by (simp add: cw1_def cw2_def x_def Let_def)
  have "op (heap (snd cw2) b) =
       (if b = next_addr w then Text ?id None
        else if b = Suc (next_addr w) then
          TextInterpolate ?id (map (process svc (scope c) ?sw) expressions) strings
        else op (heap w b))" for b
    using M(2)[of b] L(2)[of b] by (simp add: L x_def sc)
  with g eq M L show ?thesis by simp
qed

lemma grown_ops_old:
  assumes "grown (c, w) cw' cs us cs' us'" "conv_ok (c, w) cs us"
  shows "ops_of (snd cw') cs = ops_of w cs" "ops_of (snd cw') us = ops_of w us"
proof -
  have "op (heap (snd cw') b) = op (heap w b)" if "b \<in> set cs \<union> set us" for b
    using grownD(5)[OF assms(1), of b] conv_ok_lt[OF assms(2) that] by simp
  then show "ops_of (snd cw') cs = ops_of w cs" "ops_of (snd cw') us = ops_of w us"
    by (auto intro: ops_of_frame)
qed

lemma grown_list_ops:
  assumes "grown (c, w) cw' cs us cs' us'" "conv_ok (c, w) cs us"
  shows "list_ops (create (fst cw')) (snd cw') = Some (ops_of w cs @ ops_of (snd cw') cs')"
    and "list_ops (update (fst cw')) (snd cw') = Some (ops_of w us @ ops_of (snd cw') us')"
proof -
  from grownD(1)[OF assms(1)] have "ir_list (snd cw') (create (fst cw')) (cs @ cs')"
    "ir_list (snd cw') (update (fst cw')) (us @ us')" by (simp_all add: conv_ok_def)
  from this[THEN list_ops_ir_list] grown_ops_old[OF assms]
  show "list_ops (create (fst cw')) (snd cw') = Some (ops_of w cs @ ops_of (snd cw') cs')"
    and "list_ops (update (fst cw')) (snd cw') = Some (ops_of w us @ ops_of (snd cw') us')"
    by simp_all
qed

lemma set_op_const: "set_op a f w = set_op a (\<lambda>_. f (op (heap w a))) w"
  by (simp add: set_op_def)

lemma set_op_twice: "set_op a (\<lambda>_. y) (set_op a g w) = set_op a (\<lambda>_. y) w"
  by (simp add: set_op_def)

lemma set_op_id: "f (op (heap w a)) = op (heap w a) \<Longrightarrow> set_op a f w = w"
proof -
  assume "f (op (heap w a)) = op (heap w a)"
  then have "(heap w a)\<lparr>op := f (op (heap w a))\<rparr> = heap w a" by simp
  then show ?thesis by (simp add: set_op_def)
qed

lemma fold_attributes:
  "op (heap w a) = ElementStart i nm (Some as) r \<Longrightarrow>
   fold (\<lambda>(n, v) w. set_op a (push_attr (AttrString v)) (set_op a (push_attr (AttrString n)) w))
     attributes w
   = set_op a (\<lambda>_. ElementStart i nm (Some (as @ attr_pairs attributes)) r) w"
proof (induction attributes arbitrary: w as)
  case Nil
  then show ?case by (simp add: attr_pairs_def set_op_id)
next
  case (Cons p attributes)
  obtain n v where p: "p = (n, v)" by (cases p)
  let ?w = "set_op a (push_attr (AttrString v)) (set_op a (push_attr (AttrString n)) w)"
  from Cons.prems have o: "op (heap ?w a) = ElementStart i nm (Some (as @ [AttrString n, AttrString v])) r"
    by simp
  have w: "?w = set_op a (\<lambda>_. ElementStart i nm (Some (as @ [AttrString n, AttrString v])) r) w"
    using Cons.prems by (simp add: set_op_def)
  from Cons.IH[OF o] show ?case
    by (simp add: p w set_op_twice attr_pairs_def)
qed

lemma push_inputs_Cons:
  "push_inputs svc ident a ((n, v) # rest) (c, w) =
     push_inputs svc ident a rest
       (update_append (next_addr w)
          (c, snd (new_node (Property ident n (process svc (scope c) (scopes w) v))
                    (set_op a (push_attr (AttrString n)) w))))"
  by (simp add: new_node_def Let_def)

declare push_inputs.simps(2) [simp del]

lemma push_inputs_grown:
  fixes w :: "('e, 'r, 'w) world" and c :: "'h TemplateToIrConverter"
    and svc :: "('h, 'w, 'r, 'e) Collaborators"
  assumes "grown cw0 (c, w) cs0 us0 cs' us'" "next_addr (snd cw0) \<le> a" "a < next_addr w"
    "op (heap w a) = ElementStart i nm (Some as) r"
  shows "\<exists>us''. grown cw0 (push_inputs svc ident a inputs (c, w)) cs0 us0 cs' (us' @ us'') \<and>
     op (heap (snd (push_inputs svc ident a inputs (c, w))) a)
       = ElementStart i nm (Some (as @ map (\<lambda>(n, v). AttrString n) inputs)) r \<and>
     ops_of (snd (push_inputs svc ident a inputs (c, w))) us''
       = map (\<lambda>(n, v). Property ident n (process svc (scope c) (scopes w) v)) inputs \<and>
     (\<forall>b. b < next_addr w \<longrightarrow> b \<noteq> a \<longrightarrow>
        op (heap (snd (push_inputs svc ident a inputs (c, w))) b) = op (heap w b)) \<and>
     scopes (snd (push_inputs svc ident a inputs (c, w))) = scopes w \<and>
     create (fst (push_inputs svc ident a inputs (c, w))) = create c"
  using assms
proof (induction inputs arbitrary: c w us' as)
  case Nil
  then show ?case by (intro exI[of _ "[]"]) simp
next
  case (Cons p rest)
  obtain n v where p: "p = (n, v)" by (cases p)
  let ?w1 = "set_op a (push_attr (AttrString n)) w"
  define P :: "('e, 'r) ir_op" where "P = Property ident n (process svc (scope c) (scopes w) v)"
  define cw2 where "cw2 = update_append (next_addr ?w1) (c, snd (new_node P ?w1))"
  let ?res = "push_inputs svc ident a rest (fst cw2, snd cw2)"
  have step: "push_inputs svc ident a ((n, v) # rest) (c, w) = ?res"
    unfolding push_inputs_Cons by (simp add: cw2_def P_def)
  from grown_set_op[OF Cons.prems(1,2)] have g1: "grown cw0 (c, ?w1) cs0 us0 cs' us'" .
  from grownD(1)[OF g1] have ok1: "conv_ok (c, ?w1) (cs0 @ cs') (us0 @ us')" .
  note M = update_append_grown[OF ok1, where x = P, folded cw2_def]
  from grown_trans[OF g1 M(1)] have g2: "grown cw0 (fst cw2, snd cw2) cs0 us0 cs' (us' @ [next_addr w])"
    by simp
  from Cons.prems(3) M(4) have lt: "a < next_addr (snd cw2)" by simp
  from Cons.prems(3,4) M(2)[of a]
  have oa: "op (heap (snd cw2) a) = ElementStart i nm (Some (as @ [AttrString n])) r" by simp
  from Cons.IH[OF g2 Cons.prems(2) lt oa] obtain us3 where
    I1: "grown cw0 ?res cs0 us0 cs' ((us' @ [next_addr w]) @ us3)" and
    I2: "op (heap (snd ?res) a)
          = ElementStart i nm (Some ((as @ [AttrString n]) @ map (\<lambda>(n, v). AttrString n) rest)) r" and
    I3: "ops_of (snd ?res) us3
          = map (\<lambda>(n, v). Property ident n (process svc (scope (fst cw2)) (scopes (snd cw2)) v)) rest" and
    I4: "\<forall>b. b < next_addr (snd cw2) \<longrightarrow> b \<noteq> a \<longrightarrow> op (heap (snd ?res) b) = op (heap (snd cw2) b)" and
    I5: "scopes (snd ?res) = scopes (snd cw2)" and
    I6: "create (fst ?res) = create (fst cw2)"
    by blast
  from grownD(2)[OF M(1)] have sc: "scope (fst cw2) = scope c" by simp
  have nw: "op (heap (snd ?res) (next_addr w)) = P"
    using I4 M(2)[of "next_addr w"] M(4) Cons.prems(3) by simp
  have fr: "op (heap (snd ?res) b) = op (heap w b)" if "b < next_addr w" "b \<noteq> a" for b
    using I4 M(2)[of b] M(4) that by simp
  show ?case
  proof (intro exI[of _ "next_addr w # us3"] conjI)
    from I1 show "grown cw0 (push_inputs svc ident a (p # rest) (c, w)) cs0 us0 cs'
        (us' @ next_addr w # us3)" by (simp add: step p)
    from I2 show "op (heap (snd (push_inputs svc ident a (p # rest) (c, w))) a)
        = ElementStart i nm (Some (as @ map (\<lambda>(n, v). AttrString n) (p # rest))) r"
      by (simp add: step p)
    from I3 nw show "ops_of (snd (push_inputs svc ident a (p # rest) (c, w))) (next_addr w # us3)
        = map (\<lambda>(n, v). Property ident n (process svc (scope c) (scopes w) v)) (p # rest)"
      by (simp add: step p ops_of_def P_def sc M(3))
    from fr show "\<forall>b. b < next_addr w \<longrightarrow> b \<noteq> a \<longrightarrow>
        op (heap (snd (push_inputs svc ident a (p # rest) (c, w))) b) = op (heap w b)"
      by (simp add: step p)
    from I5 M(3) show "scopes (snd (push_inputs svc ident a (p # rest) (c, w))) = scopes w"
      by (simp add: step p)
    from I6 M(5) show "create (fst (push_inputs svc ident a (p # rest) (c, w))) = create c"
      by (simp add: step p)
  qed
qed

lemma visitElement_open_eq:
  "visitElement_open svc name attributes inputs references (c, w) =
    (let ident = fst (allocateId svc (scope c) (scopes w));
         rs = collect_refs svc (scope c) ident references (snd (allocateId svc (scope c) (scopes w)));
         a = next_addr w;
         cw1 = create_append a
                 (c, snd (new_node (ElementStart ident name None (fst rs)) (w\<lparr>scopes := snd rs\<rparr>)))
     in if length attributes > 0 \<or> length inputs > 0 then
          (let w3 = set_op a (set_attrs []) (snd cw1);
               w4 = fold (\<lambda>(n, v) w.
                      set_op a (push_attr (AttrString v)) (set_op a (push_attr (AttrString n)) w))
                    attributes w3;
               w5 = (if length inputs > 0 then set_op a (push_attr AttributeMarker_Bindings) w4
                     else w4)
           in (ident, push_inputs svc ident a inputs (fst cw1, w5)))
        else (ident, cw1))"
  by (simp add: visitElement_open_def new_node_def Let_def split: prod.splits)

lemma visitElement_open_grown:
  fixes w :: "('e, 'r, 'w) world" and c :: "'h TemplateToIrConverter"
    and svc :: "('h, 'w, 'r, 'e) Collaborators"
    and nm :: string and attributes references :: "(string \<times> string) list"
    and inputs :: "(string \<times> ast) list"
  assumes ok: "conv_ok (c, w) cs us"
  defines "ident \<equiv> fst (allocateId svc (scope c) (scopes w))"
  defines "rs \<equiv> collect_refs svc (scope c) ident references (snd (allocateId svc (scope c) (scopes w)))"
  defines "res \<equiv> visitElement_open svc nm attributes inputs references (c, w)"
  shows "\<exists>us'. fst res = ident \<and> grown (c, w) (snd res) cs us [next_addr w] us' \<and>
     op (heap (snd (snd res)) (next_addr w))
       = ElementStart ident nm (element_attrs attributes inputs) (fst rs) \<and>
     ops_of (snd (snd res)) us'
       = map (\<lambda>(n, v). Property ident n (process svc (scope c) (snd rs) v)) inputs \<and>
     scopes (snd (snd res)) = snd rs"
proof -
  let ?a = "next_addr w"
  define cw1 where "cw1 = create_append ?a
      (c, snd (new_node (ElementStart ident nm None (fst rs)) (w\<lparr>scopes := snd rs\<rparr>)))"
  from ok have ok': "conv_ok (c, w\<lparr>scopes := snd rs\<rparr>) cs us" by simp
  note L = create_append_grown[OF ok', where x = "ElementStart ident nm None (fst rs)",
      simplified, folded cw1_def]
  show ?thesis
  proof (cases "length attributes > 0 \<or> length inputs > 0")
    case False
    then have "res = (ident, cw1)"
      by (simp add: res_def visitElement_open_eq Let_def cw1_def ident_def rs_def)
    with L False show ?thesis
      by (intro exI[of _ "[]"]) (simp add: element_attrs_def)
  next
    case True
    define w3 where "w3 = set_op ?a (set_attrs []) (snd cw1)"
    define w4 where "w4 = fold (\<lambda>(n, v) w.
                      set_op ?a (push_attr (AttrString v)) (set_op ?a (push_attr (AttrString n)) w))
                    attributes w3"
    define w5 where "w5 = (if length inputs > 0 then set_op ?a (push_attr AttributeMarker_Bindings) w4
                     else w4)"
    define as where "as = attr_pairs attributes @
        (if length inputs > 0 then [AttributeMarker_Bindings] else [])"
    from True have res: "res = (ident, push_inputs svc ident ?a inputs (fst cw1, w5))"
      by (simp add: res_def visitElement_open_eq Let_def cw1_def ident_def rs_def w3_def w4_def
          w5_def)
    from L(1) have g1: "grown (c, w) (fst cw1, snd cw1) cs us [?a] []" by simp
    have o3: "op (heap w3 ?a) = ElementStart ident nm (Some []) (fst rs)"
      by (simp add: w3_def L)
    from fold_attributes[OF o3, of attributes]
    have w4: "w4 = set_op ?a (\<lambda>_. ElementStart ident nm (Some (attr_pairs attributes)) (fst rs)) w3"
      by (simp add: w4_def)
    have o5: "op (heap w5 ?a) = ElementStart ident nm (Some as) (fst rs)"
      by (simp add: w5_def w4 as_def)
    have sc5: "scopes w5 = snd rs" "next_addr w5 = Suc ?a"
      by (simp_all add: w5_def w4 w3_def L)
    have others: "op (heap w5 b) = op (heap (snd cw1) b)" if "b \<noteq> ?a" for b
      using that by (simp add: w5_def w4 w3_def)
    have g5: "grown (c, w) (fst cw1, w5) cs us [?a] []"
      unfolding w5_def w4 w3_def using g1 by (auto intro!: grown_set_op)
    from sc5 have lt: "?a < next_addr w5" by simp
    from grownD(2)[OF L(1)] have sc: "scope (fst cw1) = scope c" by simp
    from push_inputs_grown[OF g5 _ lt o5, of svc ident inputs] obtain us2 where
      P1: "grown (c, w) (push_inputs svc ident ?a inputs (fst cw1, w5)) cs us [?a] ([] @ us2)" and
      P2: "op (heap (snd (push_inputs svc ident ?a inputs (fst cw1, w5))) ?a)
            = ElementStart ident nm (Some (as @ map (\<lambda>(n, v). AttrString n) inputs)) (fst rs)" and
      P3: "ops_of (snd (push_inputs svc ident ?a inputs (fst cw1, w5))) us2
            = map (\<lambda>(n, v). Property ident n (process svc (scope (fst cw1)) (scopes w5) v)) inputs" and
      P5: "scopes (snd (push_inputs svc ident ?a inputs (fst cw1, w5))) = scopes w5"
      by auto
    from True have "element_attrs attributes inputs = Some (as @ map (\<lambda>(n, v). AttrString n) inputs)"
      by (simp add: element_attrs_def as_def)
    with P1 P2 P3 P5 sc sc5 show ?thesis
      by (intro exI[of _ us2]) (simp add: res)
  qed
qed

lemma visitTemplate_close_eq:
  "visitTemplate_close svc ident tagName references parsed (c, w) =
    (let rs = collect_refs svc (scope c) ident references (scopes w);
         cw1 = create_append (next_addr w)
                 (c, snd (new_node (Template ident (if tagName \<noteq> [] then tagName else ''ng-template'')
                                      None None None) (w\<lparr>scopes := snd rs\<rparr>)))
     in (fst cw1, set_op (next_addr w) (set_view (create parsed) (update parsed) (fst rs)) (snd cw1)))"
  by (simp add: visitTemplate_close_def new_node_def Let_def split: prod.splits)

lemma visitTemplate_close_grown:
  fixes w :: "('e, 'r, 'w) world" and c :: "'h TemplateToIrConverter"
    and svc :: "('h, 'w, 'r, 'e) Collaborators" and references :: "(string \<times> string) list"
    and ident :: nat and tagName :: string and parsed :: "'h TemplateToIrConverter"
  assumes ok: "conv_ok (c, w) cs us"
  defines "rs \<equiv> collect_refs svc (scope c) ident references (scopes w)"
  defines "res \<equiv> visitTemplate_close svc ident tagName references parsed (c, w)"
  shows "grown (c, w) res cs us [next_addr w] []"
    and "op (heap (snd res) (next_addr w))
       = Template ident (if tagName \<noteq> [] then tagName else ''ng-template'')
           (Some (create parsed)) (Some (update parsed)) (fst rs)"
proof -
  let ?a = "next_addr w"
  let ?x = "Template ident (if tagName \<noteq> [] then tagName else ''ng-template'') None None None"
  define cw1 where "cw1 = create_append ?a (c, snd (new_node ?x (w\<lparr>scopes := snd rs\<rparr>)))"
  from ok have ok': "conv_ok (c, w\<lparr>scopes := snd rs\<rparr>) cs us" by simp
  note L = create_append_grown[OF ok', where x = ?x, simplified, folded cw1_def]
  have res: "res = (fst cw1, set_op ?a (set_view (create parsed) (update parsed) (fst rs)) (snd cw1))"
    by (simp add: res_def visitTemplate_close_eq Let_def cw1_def rs_def)
  from L(1) have "grown (c, w) (fst cw1, snd cw1) cs us [?a] []" by simp
  from grown_set_op[OF this] show "grown (c, w) res cs us [?a] []" by (simp add: res)
  show "op (heap (snd res) ?a)
       = Template ident (if tagName \<noteq> [] then tagName else ''ng-template'')
           (Some (create parsed)) (Some (update parsed)) (fst rs)"
    by (simp add: res L)
qed

lemma conv_ok_empty:
  "conv_ok (\<lparr>create = \<lparr>head = None, tail = None\<rparr>, update = \<lparr>head = None, tail = None\<rparr>,
             scope = h\<rparr>, w) [] []"
  by (simp add: conv_ok_def ir_list_def dll_def chain_def list_in_def)

lemma child_frame:
  assumes ok: "conv_ok (c, w) cs us" and g: "grown (p0, w0) (p, w1) [] [] cs' us'"
    and h: "heap w0 = heap w" and n: "next_addr w0 = next_addr w"
  shows "grown (c, w) (c, w1) cs us [] []"
proof (rule grownI)
  note G = grownD[OF g]
  have same: "heap w1 b = heap w b" if "b < next_addr w" for b
    using G(6)[of b] that h n by simp
  from G(3) n have le: "next_addr w \<le> next_addr w1" by simp
  from ok have lt: "\<And>b. b \<in> set cs \<union> set us \<Longrightarrow> b < next_addr w" by (auto simp: conv_ok_def)
  have "ir_list w1 (create c) cs"
    unfolding ir_list_def
  proof (rule dll_cong)
    from ok show "dll (list_in (create c) w) cs" by (simp add: conv_ok_def ir_list_def)
    fix x assume "x \<in> set cs"
    with lt same show "prev_ptr (nodes (list_in (create c) w1) x) = prev_ptr (nodes (list_in (create c) w) x) \<and>
      next_ptr (nodes (list_in (create c) w1) x) = next_ptr (nodes (list_in (create c) w) x)"
      by (simp add: list_in_def)
  qed (simp_all add: list_in_def)
  moreover have "ir_list w1 (update c) us"
    unfolding ir_list_def
  proof (rule dll_cong)
    from ok show "dll (list_in (update c) w) us" by (simp add: conv_ok_def ir_list_def)
    fix x assume "x \<in> set us"
    with lt same show "prev_ptr (nodes (list_in (update c) w1) x) = prev_ptr (nodes (list_in (update c) w) x) \<and>
      next_ptr (nodes (list_in (update c) w1) x) = next_ptr (nodes (list_in (update c) w) x)"
      by (simp add: list_in_def)
  qed (simp_all add: list_in_def)
  moreover from ok have "set cs \<inter> set us = {}" by (simp add: conv_ok_def)
  moreover have "\<forall>a\<in>set cs \<union> set us. a < next_addr w1"
    using lt le by fastforce
  ultimately show "conv_ok (c, w1) (cs @ []) (us @ [])" by (simp add: conv_ok_def)
  show "scope (fst (c, w1)) = scope (fst (c, w))" by simp
  from le show "next_addr (snd (c, w)) \<le> next_addr (snd (c, w1))" by simp
  show "\<And>a. a \<in> set [] \<union> set [] \<Longrightarrow> next_addr (snd (c, w)) \<le> a" by simp
  show "\<And>b. b < next_addr (snd (c, w)) \<Longrightarrow> op (heap (snd (c, w1)) b) = op (heap (snd (c, w)) b)"
    using same by simp
  show "\<And>b. b < next_addr (snd (c, w)) \<Longrightarrow> b \<notin> set cs \<union> set us \<Longrightarrow>
      heap (snd (c, w1)) b = heap (snd (c, w)) b"
    using same by simp
qed


lemma visit_Element_eq:
  "visit_node svc (tmpl_Element nm attributes inputs references children) cw =
    (let oe = visitElement_open svc nm attributes inputs references cw;
         r = visitAll svc children (snd oe)
     in case fst r of
          Throw e \<Rightarrow> (Throw e, snd r)
        | Ok u \<Rightarrow> (Ok (), create_append (next_addr (snd (snd r)))
                     (fst (snd r), snd (new_node (ElementEnd (fst oe)) (snd (snd r))))))"
  by (simp add: new_node_def Let_def split: prod.splits result.splits)

lemma visit_Template_eq:
  "visit_node svc (tmpl_Template tagName variables references children) (c, w) =
    (let ident = fst (allocateId svc (scope c) (scopes w));
         ch = child svc (scope c) ident (snd (allocateId svc (scope c) (scopes w)));
         parser = \<lparr>create = \<lparr>head = None, tail = None\<rparr>,
                   update = \<lparr>head = None, tail = None\<rparr>, scope = fst ch\<rparr>;
         sw3 = fold (\<lambda>(n, v) sw. recordVariable svc (fst ch) n ident v sw) variables (snd ch);
         r = visitAll svc children (parser, w\<lparr>scopes := sw3\<rparr>)
     in case fst r of
          Throw e \<Rightarrow> (Throw e, (c, snd (snd r)))
        | Ok u \<Rightarrow> (Ok (), visitTemplate_close svc ident tagName references (fst (snd r))
                      (c, snd (snd r))))"
  by (simp add: Let_def split: prod.splits result.splits)

lemma visitAll_Cons_eq:
  "visitAll svc (n # ns) cw =
    (case fst (visit_node svc n cw) of
       Throw e \<Rightarrow> (Throw e, snd (visit_node svc n cw))
     | Ok u \<Rightarrow> visitAll svc ns (snd (visit_node svc n cw)))"
  by (simp split: prod.splits result.splits)

declare visit_node.simps(1) [simp del] visit_node.simps(4) [simp del] visitAll.simps(2) [simp del]

lemma visit_grown_aux:
  fixes svc :: "('h, 'w, 'r, 'e) Collaborators"
  shows "\<forall>cs us. conv_ok cw cs us \<longrightarrow>
           (\<exists>cs' us'. grown cw (snd (visit_node svc n cw)) cs us cs' us')"
    and "\<forall>cs us. conv_ok cw' cs us \<longrightarrow>
           (\<exists>cs' us'. grown cw' (snd (visitAll svc ns cw')) cs us cs' us')"
proof (induction svc n cw and svc ns cw' rule: visit_node_visitAll.induct)
  case (1 svc nm attributes inputs references children cw)
  show ?case
  proof (intro allI impI)
    fix cs us assume ok: "conv_ok cw cs us"
    obtain c w where cw: "cw = (c, w)" by (cases cw)
    define oe where "oe = visitElement_open svc nm attributes inputs references cw"
    define r where "r = visitAll svc children (snd oe)"
    from visitElement_open_grown[OF ok[unfolded cw], of svc nm attributes inputs references]
    obtain us1 where g1: "grown cw (snd oe) cs us [next_addr w] us1"
      by (auto simp: oe_def cw)
    have "(fst oe, snd oe) = visitElement_open svc nm attributes inputs references cw"
      by (simp add: oe_def)
    from "1.IH"[OF this] grownD(1)[OF g1] obtain cs2 us2 where
      g2: "grown (snd oe) (snd r) (cs @ [next_addr w]) (us @ us1) cs2 us2"
      unfolding r_def by blast
    note g12 = grown_trans[OF g1 g2]
    show "\<exists>cs' us'. grown cw
        (snd (visit_node svc (tmpl_Element nm attributes inputs references children) cw)) cs us cs' us'"
    proof (cases "fst r")
      case (Throw e)
      then have "snd (visit_node svc (tmpl_Element nm attributes inputs references children) cw) = snd r"
        by (simp add: visit_Element_eq Let_def oe_def r_def)
      with g12 show ?thesis by auto
    next
      case (Ok u)
      let ?res = "create_append (next_addr (snd (snd r)))
                     (fst (snd r), snd (new_node (ElementEnd (fst oe)) (snd (snd r))))"
      from Ok have eq: "snd (visit_node svc (tmpl_Element nm attributes inputs references children) cw) = ?res"
        by (simp add: visit_Element_eq Let_def oe_def r_def)
      from grownD(1)[OF g12] have "conv_ok (fst (snd r), snd (snd r)) (cs @ [next_addr w] @ cs2) (us @ us1 @ us2)"
        by simp
      from create_append_grown(1)[OF this, of "ElementEnd (fst oe)"]
      have "grown (snd r) ?res (cs @ ([next_addr w] @ cs2)) (us @ (us1 @ us2))
          [next_addr (snd (snd r))] []"
        by simp
      from grown_trans[OF g12 this] eq show ?thesis by auto
    qed
  qed
next
  case (2 svc val cw)
  show ?case
  proof (intro allI impI)
    fix cs us assume ok: "conv_ok cw cs us"
    obtain c w where cw: "cw = (c, w)" by (cases cw)
    from visitText_grown[OF ok[unfolded cw], of svc val]
    show "\<exists>cs' us'. grown cw (snd (visit_node svc (tmpl_Text val) cw)) cs us cs' us'"
      unfolding cw by fastforce
  qed
next
  case (3 svc val cw)
  show ?case
  proof (intro allI impI)
    fix cs us assume ok: "conv_ok cw cs us"
    obtain c w where cw: "cw = (c, w)" by (cases cw)
    show "\<exists>cs' us'. grown cw (snd (visit_node svc (tmpl_BoundText val) cw)) cs us cs' us'"
    proof (cases "is_interpolation (unwrap_source val)")
      case False
      from visitBoundText_throw_grown[OF ok[unfolded cw] this, of svc] show ?thesis
        unfolding cw by fastforce
    next
      case True
      then obtain strings expressions where "unwrap_source val = Interpolation strings expressions"
        by (cases "unwrap_source val") auto
      from visitBoundText_ok_grown[OF ok[unfolded cw] this, of svc] show ?thesis
        unfolding cw by fastforce
    qed
  qed
next
  case (4 svc tagName variables references children cw)
  show ?case
  proof (intro allI impI)
    fix cs us assume ok: "conv_ok cw cs us"
    obtain c w where cw: "cw = (c, w)" by (cases cw)
    define ident where "ident = fst (allocateId svc (scope c) (scopes w))"
    define ch where "ch = child svc (scope c) ident (snd (allocateId svc (scope c) (scopes w)))"
    define parser where "parser = \<lparr>create = \<lparr>head = None, tail = None\<rparr>,
                   update = \<lparr>head = None, tail = None\<rparr>, scope = fst ch\<rparr>"
    define sw3 where "sw3 = fold (\<lambda>(n, v) sw. recordVariable svc (fst ch) n ident v sw) variables (snd ch)"
    define r where "r = visitAll svc children (parser, w\<lparr>scopes := sw3\<rparr>)"
    have "\<forall>cs us. conv_ok (parser, w\<lparr>scopes := sw3\<rparr>) cs us \<longrightarrow>
           (\<exists>cs' us'. grown (parser, w\<lparr>scopes := sw3\<rparr>)
              (snd (visitAll svc children (parser, w\<lparr>scopes := sw3\<rparr>))) cs us cs' us')"
      by (rule "4.IH"[of c w ident "snd (allocateId svc (scope c) (scopes w))" "fst ch" "snd ch"])
        (simp_all add: cw ident_def ch_def parser_def sw3_def)
    moreover have "conv_ok (parser, w\<lparr>scopes := sw3\<rparr>) [] []"
      unfolding parser_def by (rule conv_ok_empty)
    ultimately have "\<exists>cs1 us1. grown (parser, w\<lparr>scopes := sw3\<rparr>) (snd r) [] [] cs1 us1"
      unfolding r_def by blast
    then obtain cs1 us1 where
      "grown (parser, w\<lparr>scopes := sw3\<rparr>) (fst (snd r), snd (snd r)) [] [] cs1 us1"
      by auto
    from child_frame[OF ok[unfolded cw] this]
    have g0: "grown (c, w) (c, snd (snd r)) cs us [] []" by simp
    show "\<exists>cs' us'. grown cw
        (snd (visit_node svc (tmpl_Template tagName variables references children) cw)) cs us cs' us'"
    proof (cases "fst r")
      case (Throw e)
      then have "snd (visit_node svc (tmpl_Template tagName variables references children) cw)
          = (c, snd (snd r))"
        by (simp add: cw visit_Template_eq Let_def ident_def ch_def parser_def sw3_def r_def)
      with g0 show ?thesis by (auto simp: cw)
    next
      case (Ok u)
      let ?res = "visitTemplate_close svc ident tagName references (fst (snd r)) (c, snd (snd r))"
      from Ok have eq: "snd (visit_node svc (tmpl_Template tagName variables references children) cw) = ?res"
        by (simp add: cw visit_Template_eq Let_def ident_def ch_def parser_def sw3_def r_def)
      from grownD(1)[OF g0] have "conv_ok (c, snd (snd r)) cs us" by simp
      from grown_trans[OF g0] visitTemplate_close_grown(1)[OF this, of svc ident tagName references "fst (snd r)"]
      have "grown (c, w) ?res cs us ([] @ [next_addr (snd (snd r))]) ([] @ [])" by simp
      with eq show ?thesis by (auto simp: cw)
    qed
  qed
next
  case (12 svc cw)
  then show ?case by (auto intro: grown_refl)
next
  case (13 svc n ns cw)
  show ?case
  proof (intro allI impI)
    fix cs us assume ok: "conv_ok cw cs us"
    from "13.IH"(1) ok obtain cs1 us1 where
      g1: "grown cw (snd (visit_node svc n cw)) cs us cs1 us1" by blast
    show "\<exists>cs' us'. grown cw (snd (visitAll svc (n # ns) cw)) cs us cs' us'"
    proof (cases "fst (visit_node svc n cw)")
      case (Throw e)
      then have "snd (visitAll svc (n # ns) cw) = snd (visit_node svc n cw)"
        by (simp add: visitAll_Cons_eq)
      with g1 show ?thesis by auto
    next
      case (Ok u)
      then have eq: "visitAll svc (n # ns) cw = visitAll svc ns (snd (visit_node svc n cw))"
        by (simp add: visitAll_Cons_eq)
      have "(fst (visit_node svc n cw), snd (visit_node svc n cw)) = visit_node svc n cw" by simp
      from "13.IH"(2)[OF this Ok] grownD(1)[OF g1] obtain cs2 us2 where
        "grown (snd (visit_node svc n cw)) (snd (visitAll svc ns (snd (visit_node svc n cw))))
           (cs @ cs1) (us @ us1) cs2 us2" by blast
      from grown_trans[OF g1 this] eq show ?thesis by auto
    qed
  qed
qed (auto intro: grown_refl)

lemma visit_grown:
  "conv_ok cw cs us \<Longrightarrow> \<exists>cs' us'. grown cw (snd (visit_node svc n cw)) cs us cs' us'"
  using visit_grown_aux(1) by blast

lemma visitAll_grown:
  "conv_ok cw cs us \<Longrightarrow> \<exists>cs' us'. grown cw (snd (visitAll svc ns cw)) cs us cs' us'"
  using visit_grown_aux(2) by blast

text \<open>A visit returns exactly on the nodes that lower.\<close>

lemma visitBoundText_ok_iff:
  "fst (visitBoundText svc val cw) = Ok () \<longleftrightarrow> is_interpolation (unwrap_source val)"
  by (cases "unwrap_source val")
    (simp_all add: visitBoundText_def Let_def split: prod.splits)

lemma visit_ok_iff:
  fixes svc :: "('h, 'w, 'r, 'e) Collaborators"
  shows "fst (visit_node svc n cw) = Ok () \<longleftrightarrow> lowers n"
    and "fst (visitAll svc ns cw') = Ok () \<longleftrightarrow> list_all lowers ns"
proof (induction svc n cw and svc ns cw' rule: visit_node_visitAll.induct)
  case (1 svc nm attributes inputs references children cw)
  define oe where "oe = visitElement_open svc nm attributes inputs references cw"
  have "(fst oe, snd oe) = visitElement_open svc nm attributes inputs references cw"
    by (simp add: oe_def)
  from "1.IH"[OF this] show ?case
    by (cases "fst (visitAll svc children (snd oe))")
      (simp_all add: visit_Element_eq Let_def oe_def)
next
  case (2 svc val cw)
  show ?case by (simp add: visitText_def split: prod.splits)
next
  case (3 svc val cw)
  show ?case by (simp add: visitBoundText_ok_iff)
next
  case (4 svc tagName variables references children cw)
  obtain c w where cw: "cw = (c, w)" by (cases cw)
  define ident where "ident = fst (allocateId svc (scope c) (scopes w))"
  define ch where "ch = child svc (scope c) ident (snd (allocateId svc (scope c) (scopes w)))"
  define parser where "parser = \<lparr>create = \<lparr>head = None, tail = None\<rparr>,
                   update = \<lparr>head = None, tail = None\<rparr>, scope = fst ch\<rparr>"
  define sw3 where "sw3 = fold (\<lambda>(n, v) sw. recordVariable svc (fst ch) n ident v sw) variables (snd ch)"
  have "fst (visitAll svc children (parser, w\<lparr>scopes := sw3\<rparr>)) = Ok () \<longleftrightarrow>
      list_all lowers children"
    unfolding parser_def sw3_def ch_def ident_def
    by (rule "4.IH"[OF cw[symmetric]]) (simp_all add: prod_eq_iff)
  then show ?case
    by (cases "fst (visitAll svc children (parser, w\<lparr>scopes := sw3\<rparr>))")
      (simp_all add: cw visit_Template_eq Let_def ident_def ch_def parser_def sw3_def)
next
  case (13 svc n ns cw)
  show ?case
  proof (cases "fst (visit_node svc n cw)")
    case (Throw e)
    with "13.IH"(1) show ?thesis by (simp add: visitAll_Cons_eq)
  next
    case (Ok u)
    then have "(Ok u, snd (visit_node svc n cw)) = visit_node svc n cw" by (simp add: prod_eq_iff)
    from "13.IH"(2)[OF this refl] "13.IH"(1) Ok show ?thesis by (simp add: visitAll_Cons_eq)
  qed
qed simp_all


lemma lowering_example:
  fixes w :: "('e, string \<times> nat \<times> string, nat) world" and lower :: "ast \<Rightarrow> 'e"
    and x :: ast
  defines "svc \<equiv> counting_scope lower"
  defines "input \<equiv> [tmpl_Element ''div'' [(''class'', ''a'')] [(''id'', x)] [] [tmpl_Text ''hi'']]"
  shows "lowered_create svc input w =
      Some [ElementStart 0 ''div''
              (Some [AttrString ''class'', AttrString ''a'', AttributeMarker_Bindings,
                     AttrString ''id'']) None,
            Text 1 (Some ''hi''), ElementEnd 0]"
    and "lowered_update svc input w = Some [Property 0 ''id'' (lower x)]"
proof -
  define c0 :: "unit TemplateToIrConverter" where
    "c0 = \<lparr>create = \<lparr>head = None, tail = None\<rparr>, update = \<lparr>head = None, tail = None\<rparr>, scope = ()\<rparr>"
  define w0 where "w0 = w\<lparr>scopes := 0\<rparr>"
  have ok0: "conv_ok (c0, w0) [] []" unfolding c0_def by (rule conv_ok_empty)
  define oe where "oe = visitElement_open svc ''div'' [(''class'', ''a'')] [(''id'', x)] [] (c0, w0)"
  from visitElement_open_grown[OF ok0, of svc "''div''" "[(''class'', ''a'')]" "[(''id'', x)]" "[]"]
  obtain us1 where
    i1: "fst oe = 0" and
    g1: "grown (c0, w0) (snd oe) [] [] [next_addr w0] us1" and
    o1: "op (heap (snd (snd oe)) (next_addr w0)) =
           ElementStart 0 ''div''
             (Some [AttrString ''class'', AttrString ''a'', AttributeMarker_Bindings,
                    AttrString ''id'']) None" and
    u1: "ops_of (snd (snd oe)) us1 = [Property 0 ''id'' (lower x)]" and
    s1: "scopes (snd (snd oe)) = Suc 0"
    by (auto simp: oe_def svc_def counting_scope_def w0_def collect_refs_def element_attrs_def
        attr_pairs_def)
  from grownD(1)[OF g1] have ok1: "conv_ok (fst (snd oe), snd (snd oe)) [next_addr w0] us1" by simp
  let ?n1 = "next_addr (snd (snd oe))"
  from visitText_grown[OF ok1, of svc "''hi''"] obtain cw2 where
    t: "visitText svc ''hi'' (snd oe) = (Ok (), cw2)" and
    g2: "grown (snd oe) cw2 [next_addr w0] us1 [?n1] []" and
    o2: "\<forall>b. op (heap (snd cw2) b) =
          (if b = ?n1 then Text 1 (Some ''hi'') else op (heap (snd (snd oe)) b))"
    by (auto simp: svc_def counting_scope_def s1)
  have r: "visitAll svc [tmpl_Text ''hi''] (snd oe) = (Ok (), cw2)"
    by (simp add: visitAll_Cons_eq t)
  from grownD(1)[OF g2] have ok2: "conv_ok (fst cw2, snd cw2) [next_addr w0, ?n1] us1" by simp
  let ?n2 = "next_addr (snd cw2)"
  define res where "res = create_append ?n2 (fst cw2, snd (new_node (ElementEnd 0) (snd cw2)))"
  note E = create_append_grown[OF ok2, where x = "ElementEnd 0", folded res_def]
  have v: "visit_node svc (tmpl_Element ''div'' [(''class'', ''a'')] [(''id'', x)] [] [tmpl_Text ''hi''])
      (c0, w0) = (Ok (), res)"
    by (simp add: visit_Element_eq Let_def oe_def[symmetric] r i1 res_def)
  from grown_trans[OF g1, of cw2 "[?n1]" "[]"] g2
  have g12: "grown (c0, w0) cw2 [] [] [next_addr w0, ?n1] us1" by simp
  from grown_trans[OF g12, of res "[?n2]" "[]"] E(1)
  have g: "grown (c0, w0) res [] [] [next_addr w0, ?n1, ?n2] us1" by simp
  from ok1 have lt1: "next_addr w0 < ?n1" "\<And>b. b \<in> set us1 \<Longrightarrow> b < ?n1"
    by (auto simp: conv_ok_def)
  from grownD(3)[OF g2] have le2: "?n1 \<le> ?n2" by simp
  from ok2 have lt2: "?n1 < ?n2" by (auto simp: conv_ok_def)
  have c: "ops_of (snd res) [next_addr w0, ?n1, ?n2] =
      [ElementStart 0 ''div''
              (Some [AttrString ''class'', AttrString ''a'', AttributeMarker_Bindings,
                     AttrString ''id'']) None,
            Text 1 (Some ''hi''), ElementEnd 0]"
    using E(2) o2 o1 lt1(1) lt2 by (simp add: ops_of_def)
  have "ops_of (snd res) us1 = ops_of (snd (snd oe)) us1"
  proof (rule ops_of_frame)
    fix b assume "b \<in> set us1"
    from lt1(2)[OF this] lt2 have "b \<noteq> ?n1" "b \<noteq> ?n2" by simp_all
    with E(2)[of b] o2 show "op (heap (snd res) b) = op (heap (snd (snd oe)) b)" by simp
  qed
  with u1 have u: "ops_of (snd res) us1 = [Property 0 ''id'' (lower x)]" by simp
  have rs: "root_scope svc (scopes w) = ((), 0)" by (simp add: svc_def counting_scope_def)
  have va: "visitAll svc input (c0, w0) = (Ok (), res)"
    by (simp add: input_def visitAll_Cons_eq v)
  have p: "parseRoot svc input w =
      (Ok \<lparr>root_create = create (fst res), root_update = update (fst res),
           root_scope_of = scope (fst res), root_name = None\<rparr>, snd res)"
    by (simp add: parseRoot_def rs va[unfolded c0_def w0_def] finalize_converter_def Let_def
        split: prod.splits)
  from grown_list_ops[OF g ok0] c u
  show "lowered_create svc input w =
      Some [ElementStart 0 ''div''
              (Some [AttrString ''class'', AttrString ''a'', AttributeMarker_Bindings,
                     AttrString ''id'']) None,
            Text 1 (Some ''hi''), ElementEnd 0]"
    and "lowered_update svc input w = Some [Property 0 ''id'' (lower x)]"
    by (simp_all add: lowered_create_def lowered_update_def p)
qed

section \<open>Claims about the lowering pass\<close>

text \<open>
  C3, as the claim states it: the element-start node of the example carries the attribute
  sequence \<open>["class", "a"]\<close>.  This fails: the element has a bound input, so the marker value
  and the name of the input follow the static pair.
\<close>

theorem lowering_example_attrs_counterexample:
  "lowered_create (counting_scope id)
     [tmpl_Element ''div'' [(''class'', ''a'')] [(''id'', OtherAST ''x'')] [] [tmpl_Text ''hi'']]
     (blank_world 0)
   \<noteq> Some [ElementStart 0 ''div'' (Some [AttrString ''class'', AttrString ''a'']) None,
           Text 1 (Some ''hi''), ElementEnd 0]"
  by (simp add: lowering_example(1))

text \<open>
  C3, amended.  For the root template with one element \<open>div\<close>, the static attribute
  \<open>class="a"\<close>, the input \<open>id\<close> bound to the expression \<open>x\<close> and the child text \<open>hi\<close>, lowered
  with a scope that mints the ids 0, 1, ... and any preprocessor \<open>lower\<close>, from any world: the
  create list is element-start (id 0, tag \<open>div\<close>, attributes \<open>class\<close>, \<open>a\<close>, the bindings
  marker, \<open>id\<close>), text (id 1, value \<open>hi\<close>), element-end (id 0), and the update list is the
  property binding (target 0, name \<open>id\<close>, expression \<open>lower x\<close>).
\<close>

theorem lowering_example_lists:
  "lowered_create (counting_scope lower)
     [tmpl_Element ''div'' [(''class'', ''a'')] [(''id'', x)] [] [tmpl_Text ''hi'']] w
   = Some [ElementStart 0 ''div''
             (Some [AttrString ''class'', AttrString ''a'', AttributeMarker_Bindings,
                    AttrString ''id'']) None,
           Text 1 (Some ''hi''), ElementEnd 0] \<and>
   lowered_update (counting_scope lower)
     [tmpl_Element ''div'' [(''class'', ''a'')] [(''id'', x)] [] [tmpl_Text ''hi'']] w
   = Some [Property 0 ''id'' (lower x)]"
  by (simp add: lowering_example)

text \<open>
  C8.  In a well-formed converter state, \<open>visitBoundText\<close> throws the lowering error when the
  value, after one \<open>ASTWithSource\<close> envelope has been unwrapped, is not an \<open>Interpolation\<close>; when
  it is one, the call returns and the update list is the former update list followed by exactly
  one \<open>TextInterpolate\<close> node, which carries the allocated id, the sub-expressions lowered by
  the preprocessor, in order, and the strings of the interpolation.
\<close>

theorem visitBoundText_requires_interpolation:
  fixes w :: "('e, 'r, 'w) world" and c :: "'h TemplateToIrConverter"
  assumes "conv_ok (c, w) cs us"
  shows "(\<not> is_interpolation (unwrap_source v) \<longrightarrow>
            fst (visitBoundText svc v (c, w))
              = Throw (Error ''BoundText is not an interpolation expression?'')) \<and>
         (\<forall>strings expressions. unwrap_source v = Interpolation strings expressions \<longrightarrow>
            (\<exists>cw'. visitBoundText svc v (c, w) = (Ok (), cw') \<and>
               list_ops (update (fst cw')) (snd cw') =
                 Some (ops_of w us @
                   [TextInterpolate (fst (allocateId svc (scope c) (scopes w)))
                      (map (process svc (scope c) (snd (allocateId svc (scope c) (scopes w))))
                         expressions)
                      strings])))"
proof (intro conjI impI allI)
  assume "\<not> is_interpolation (unwrap_source v)"
  from visitBoundText_throw[OF this, of svc c w]
  show "fst (visitBoundText svc v (c, w))
      = Throw (Error ''BoundText is not an interpolation expression?'')" by simp
next
  fix strings expressions
  assume "unwrap_source v = Interpolation strings expressions"
  from visitBoundText_ok_grown[OF assms this, of svc] obtain cw' where
    eq: "visitBoundText svc v (c, w) = (Ok (), cw')" and
    g: "grown (c, w) cw' cs us [next_addr w] [Suc (next_addr w)]" and
    o: "\<forall>b. op (heap (snd cw') b) =
       (if b = next_addr w then Text (fst (allocateId svc (scope c) (scopes w))) None
        else if b = Suc (next_addr w) then
          TextInterpolate (fst (allocateId svc (scope c) (scopes w)))
            (map (process svc (scope c) (snd (allocateId svc (scope c) (scopes w)))) expressions)
            strings
        else op (heap w b))"
    by blast
  from grown_list_ops(2)[OF g assms] o eq
  show "\<exists>cw'. visitBoundText svc v (c, w) = (Ok (), cw') \<and>
               list_ops (update (fst cw')) (snd cw') =
                 Some (ops_of w us @
                   [TextInterpolate (fst (allocateId svc (scope c) (scopes w)))
                      (map (process svc (scope c) (snd (allocateId svc (scope c) (scopes w))))
                         expressions)
                      strings])"
    by simp
qed

theorem visitBoundText_requires_interpolation_witness:
  "conv_ok ((\<lparr>create = \<lparr>head = None, tail = None\<rparr>, update = \<lparr>head = None, tail = None\<rparr>,
              scope = ()\<rparr>,
             blank_world 0) :: (unit, nat, string \<times> nat \<times> string, ast) conv) [] [] \<and>
   fst (visitBoundText (counting_scope id) (OtherAST ''z'')
          (\<lparr>create = \<lparr>head = None, tail = None\<rparr>, update = \<lparr>head = None, tail = None\<rparr>,
            scope = ()\<rparr>, blank_world 0))
     = Throw (Error ''BoundText is not an interpolation expression?'') \<and>
   (\<exists>cw'. visitBoundText (counting_scope id)
            (ASTWithSource (Interpolation ['''', ''''] [OtherAST ''y'']))
            (\<lparr>create = \<lparr>head = None, tail = None\<rparr>, update = \<lparr>head = None, tail = None\<rparr>,
              scope = ()\<rparr>, blank_world 0) = (Ok (), cw') \<and>
          list_ops (update (fst cw')) (snd cw')
            = Some [TextInterpolate 0 [OtherAST ''y''] ['''', '''']])"
proof -
  let ?c = "\<lparr>create = \<lparr>head = None, tail = None\<rparr>, update = \<lparr>head = None, tail = None\<rparr>,
             scope = ()\<rparr>"
  let ?w = "blank_world (0::nat) :: (ast, string \<times> nat \<times> string, nat) world"
  have ok: "conv_ok (?c, ?w) [] []" by (rule conv_ok_empty)
  note T = visitBoundText_requires_interpolation[OF ok, of _ "counting_scope id"]
  from T[of "OtherAST ''z''", THEN conjunct1]
  have 1: "fst (visitBoundText (counting_scope id) (OtherAST ''z'') (?c, ?w))
      = Throw (Error ''BoundText is not an interpolation expression?'')"
    by (simp add: unwrap_source_def)
  from T[of "ASTWithSource (Interpolation ['''', ''''] [OtherAST ''y''])", THEN conjunct2]
  have 2: "\<exists>cw'. visitBoundText (counting_scope id)
            (ASTWithSource (Interpolation ['''', ''''] [OtherAST ''y''])) (?c, ?w) = (Ok (), cw') \<and>
          list_ops (update (fst cw')) (snd cw')
            = Some [TextInterpolate 0 [OtherAST ''y''] ['''', '''']]"
    by (simp add: unwrap_source_def counting_scope_def blank_world_def)
  from ok 1 2 show ?thesis by blast
qed

text \<open>
  C9.  In a well-formed converter state, when the unwrapped value is not an \<open>Interpolation\<close>,
  \<open>visitBoundText\<close> throws, and the state it leaves is not the state it started from: the scope
  storage is the one \<open>allocateId\<close> returned, the create list is the former create list followed
  by a \<open>Text\<close> node with the allocated id and no static value, and the update list is as before.
\<close>

theorem visitBoundText_error_keeps_writes:
  fixes w :: "('e, 'r, 'w) world" and c :: "'h TemplateToIrConverter"
  assumes "conv_ok (c, w) cs us" "\<not> is_interpolation (unwrap_source v)"
  shows "\<exists>cw'. visitBoundText svc v (c, w)
            = (Throw (Error ''BoundText is not an interpolation expression?''), cw') \<and>
          scopes (snd cw') = snd (allocateId svc (scope c) (scopes w)) \<and>
          list_ops (create (fst cw')) (snd cw')
            = Some (ops_of w cs @ [Text (fst (allocateId svc (scope c) (scopes w))) None]) \<and>
          list_ops (update (fst cw')) (snd cw') = Some (ops_of w us)"
proof -
  from visitBoundText_throw_grown[OF assms, of svc] obtain cw' where
    eq: "visitBoundText svc v (c, w)
            = (Throw (Error ''BoundText is not an interpolation expression?''), cw')" and
    g: "grown (c, w) cw' cs us [next_addr w] []" and
    o: "\<forall>b. op (heap (snd cw') b) =
       (if b = next_addr w then Text (fst (allocateId svc (scope c) (scopes w))) None
        else op (heap w b))" and
    s: "scopes (snd cw') = snd (allocateId svc (scope c) (scopes w))"
    by blast
  from grown_list_ops[OF g assms(1)] o eq s show ?thesis by simp
qed

theorem visitBoundText_error_keeps_writes_witness:
  "conv_ok ((\<lparr>create = \<lparr>head = None, tail = None\<rparr>, update = \<lparr>head = None, tail = None\<rparr>,
              scope = ()\<rparr>,
             blank_world 0) :: (unit, nat, string \<times> nat \<times> string, ast) conv) [] [] \<and>
   \<not> is_interpolation (unwrap_source (ASTWithSource (ASTWithSource (Interpolation [] [])))) \<and>
   (\<exists>cw'. visitBoundText (counting_scope id) (ASTWithSource (ASTWithSource (Interpolation [] [])))
            (\<lparr>create = \<lparr>head = None, tail = None\<rparr>, update = \<lparr>head = None, tail = None\<rparr>,
              scope = ()\<rparr>, blank_world 0)
            = (Throw (Error ''BoundText is not an interpolation expression?''), cw') \<and>
          scopes (snd cw') = Suc 0 \<and>
          list_ops (create (fst cw')) (snd cw') = Some [Text 0 None] \<and>
          list_ops (update (fst cw')) (snd cw') = Some [])"
proof -
  let ?c = "\<lparr>create = \<lparr>head = None, tail = None\<rparr>, update = \<lparr>head = None, tail = None\<rparr>,
             scope = ()\<rparr>"
  let ?w = "blank_world (0::nat) :: (ast, string \<times> nat \<times> string, nat) world"
  let ?v = "ASTWithSource (ASTWithSource (Interpolation [] []))"
  have ok: "conv_ok (?c, ?w) [] []" by (rule conv_ok_empty)
  have n: "\<not> is_interpolation (unwrap_source ?v)" by (simp add: unwrap_source_def)
  from visitBoundText_error_keeps_writes[OF ok n, of "counting_scope id"]
  have "\<exists>cw'. visitBoundText (counting_scope id) ?v (?c, ?w)
            = (Throw (Error ''BoundText is not an interpolation expression?''), cw') \<and>
          scopes (snd cw') = Suc 0 \<and>
          list_ops (create (fst cw')) (snd cw') = Some [Text 0 None] \<and>
          list_ops (update (fst cw')) (snd cw') = Some []"
    by (simp add: counting_scope_def blank_world_def)
  with ok n show ?thesis by blast
qed

text \<open>
  C10.  In a well-formed converter state, for a nested template whose children lower,
  \<open>visitTemplate\<close> returns, and the create list of the parent is then the former create list
  followed by one \<open>Template\<close> node; its id is the allocated one and its tag name is the
  \<open>tagName\<close> of the source template when that string is not empty, and \<open>ng-template\<close>
  when it is.  The update list of the parent is as before.
\<close>

theorem visitTemplate_tagName:
  fixes w :: "('e, 'r, 'w) world" and c :: "'h TemplateToIrConverter"
    and svc :: "('h, 'w, 'r, 'e) Collaborators"
  assumes ok: "conv_ok (c, w) cs us"
    and ch: "list_all lowers children"
  shows "\<exists>cw' cr up refs.
     visit_node svc (tmpl_Template tagName variables references children) (c, w) = (Ok (), cw') \<and>
     list_ops (create (fst cw')) (snd cw') =
       Some (ops_of w cs @
         [Template (fst (allocateId svc (scope c) (scopes w)))
            (if tagName \<noteq> [] then tagName else ''ng-template'') (Some cr) (Some up) refs]) \<and>
     list_ops (update (fst cw')) (snd cw') = Some (ops_of w us)"
proof -
  define ident where "ident = fst (allocateId svc (scope c) (scopes w))"
  define ch where "ch = child svc (scope c) ident (snd (allocateId svc (scope c) (scopes w)))"
  define parser where "parser = \<lparr>create = \<lparr>head = None, tail = None\<rparr>,
                   update = \<lparr>head = None, tail = None\<rparr>, scope = fst ch\<rparr>"
  define sw3 where "sw3 = fold (\<lambda>(n, v) sw. recordVariable svc (fst ch) n ident v sw) variables (snd ch)"
  define r where "r = visitAll svc children (parser, w\<lparr>scopes := sw3\<rparr>)"
  have "conv_ok (parser, w\<lparr>scopes := sw3\<rparr>) [] []"
    unfolding parser_def by (rule conv_ok_empty)
  from visitAll_grown[OF this, of svc children] obtain cs1 us1 where
    "grown (parser, w\<lparr>scopes := sw3\<rparr>) (fst (snd r), snd (snd r)) [] [] cs1 us1"
    by (auto simp: r_def)
  from child_frame[OF ok this]
  have g0: "grown (c, w) (c, snd (snd r)) cs us [] []" by simp
  let ?close = "visitTemplate_close svc ident tagName references (fst (snd r)) (c, snd (snd r))"
  from ch have "fst r = Ok ()" by (simp add: r_def visit_ok_iff(2))
  then have res: "visit_node svc (tmpl_Template tagName variables references children) (c, w)
      = (Ok (), ?close)"
    by (simp add: visit_Template_eq Let_def ident_def ch_def parser_def sw3_def r_def)
  from grownD(1)[OF g0] have ok1: "conv_ok (c, snd (snd r)) cs us" by simp
  note C = visitTemplate_close_grown[OF ok1, of svc ident tagName references "fst (snd r)"]
  from grown_trans[OF g0, of ?close "[next_addr (snd (snd r))]" "[]"] C(1)
  have g: "grown (c, w) ?close cs us [next_addr (snd (snd r))] []"
    by simp
  from grown_list_ops[OF g ok] C(2) res show ?thesis
    by (simp add: ident_def)
qed

theorem visitTemplate_tagName_witness:
  "conv_ok ((\<lparr>create = \<lparr>head = None, tail = None\<rparr>, update = \<lparr>head = None, tail = None\<rparr>,
              scope = ()\<rparr>,
             blank_world 0) :: (unit, nat, string \<times> nat \<times> string, ast) conv) [] [] \<and>
   list_all lowers [tmpl_Text ''hi''] \<and>
   (\<exists>cw' cr up refs.
      visit_node (counting_scope id) (tmpl_Template ''div'' [] [] [tmpl_Text ''hi''])
          (\<lparr>create = \<lparr>head = None, tail = None\<rparr>, update = \<lparr>head = None, tail = None\<rparr>,
            scope = ()\<rparr>, blank_world 0) = (Ok (), cw') \<and>
      list_ops (create (fst cw')) (snd cw') = Some [Template 0 ''div'' (Some cr) (Some up) refs] \<and>
      list_ops (update (fst cw')) (snd cw') = Some []) \<and>
   (\<exists>cw' cr up refs.
      visit_node (counting_scope id) (tmpl_Template [] [] [] [tmpl_Text ''hi''])
          (\<lparr>create = \<lparr>head = None, tail = None\<rparr>, update = \<lparr>head = None, tail = None\<rparr>,
            scope = ()\<rparr>, blank_world 0) = (Ok (), cw') \<and>
      list_ops (create (fst cw')) (snd cw') = Some [Template 0 ''ng-template'' (Some cr) (Some up) refs] \<and>
      list_ops (update (fst cw')) (snd cw') = Some [])"
proof -
  let ?c = "\<lparr>create = \<lparr>head = None, tail = None\<rparr>, update = \<lparr>head = None, tail = None\<rparr>,
             scope = ()\<rparr>"
  let ?w = "blank_world (0::nat) :: (ast, string \<times> nat \<times> string, nat) world"
  have ok: "conv_ok (?c, ?w) [] []" by (rule conv_ok_empty)
  have ch: "list_all lowers [tmpl_Text ''hi'']" by simp
  from visitTemplate_tagName[OF ok ch, of "counting_scope id" "''div''" "[]" "[]"]
  have 1: "\<exists>cw' cr up refs.
      visit_node (counting_scope id) (tmpl_Template ''div'' [] [] [tmpl_Text ''hi'']) (?c, ?w)
        = (Ok (), cw') \<and>
      list_ops (create (fst cw')) (snd cw') = Some [Template 0 ''div'' (Some cr) (Some up) refs] \<and>
      list_ops (update (fst cw')) (snd cw') = Some []"
    by (simp add: counting_scope_def blank_world_def)
  from visitTemplate_tagName[OF ok ch, of "counting_scope id" "[]" "[]" "[]"]
  have 2: "\<exists>cw' cr up refs.
      visit_node (counting_scope id) (tmpl_Template [] [] [] [tmpl_Text ''hi'']) (?c, ?w)
        = (Ok (), cw') \<and>
      list_ops (create (fst cw')) (snd cw') = Some [Template 0 ''ng-template'' (Some cr) (Some up) refs] \<and>
      list_ops (update (fst cw')) (snd cw') = Some []"
    by (simp add: counting_scope_def blank_world_def)
  from ok ch 1 2 show ?thesis by blast
qed

end
